theory Spec2Isabelle
  imports Complex_Main
begin

section \<open>Python runtime values shared by the helpers\<close>

text \<open>
  The exceptions the helpers of \<^verbatim>\<open>animal_helpers.py\<close> can raise. None of them is raised
  by the module's own code (it has no \<^verbatim>\<open>raise\<close> statement and defines no exception
  class); all come from the built-ins and the \<^verbatim>\<open>os\<close> functions it calls.
\<close>

datatype py_error =
    ValueError
  | FileExistsError
  | FileNotFoundError
  | IsADirectoryError
  | NotADirectoryError
  | PermissionError
  | OSError

section \<open>create_batches\<close>

text \<open>
  \<^verbatim>\<open>range(start, stop, step)\<close> as the \<^verbatim>\<open>for\<close> loop consumes it: a zero step raises
  ValueError, a positive step counts up while below \<^verbatim>\<open>stop\<close>, a negative step counts
  down while above it.
\<close>

function range_up :: "int \<Rightarrow> int \<Rightarrow> int \<Rightarrow> int list" where
  "range_up i stop step =
     (if 0 < step \<and> i < stop then i # range_up (i + step) stop step else [])"
  by pat_completeness auto
termination
  by (relation "measure (\<lambda>(i, stop, step). nat (stop - i))") auto

function range_down :: "int \<Rightarrow> int \<Rightarrow> int \<Rightarrow> int list" where
  "range_down i stop step =
     (if step < 0 \<and> stop < i then i # range_down (i + step) stop step else [])"
  by pat_completeness auto
termination
  by (relation "measure (\<lambda>(i, stop, step). nat (i - stop))") auto

definition py_range :: "int \<Rightarrow> int \<Rightarrow> int \<Rightarrow> py_error + int list" where
  "py_range start stop step =
     (if step = 0 then Inl ValueError
      else if 0 < step then Inr (range_up start stop step)
      else Inr (range_down start stop step))"

text \<open>
  \<^verbatim>\<open>data.iloc[lo:hi]\<close>: positional slicing of the rows of a table, with Python's slice
  rules (a negative bound counts from the end, both bounds are clamped to the table).
\<close>

definition slice_bound :: "nat \<Rightarrow> int \<Rightarrow> nat" where
  "slice_bound n k = (if k < 0 then nat (max (k + int n) 0) else min (nat k) n)"

definition iloc_slice :: "'a list \<Rightarrow> int \<Rightarrow> int \<Rightarrow> 'a list" where
  "iloc_slice data lo hi =
     (let l = slice_bound (length data) lo; h = slice_bound (length data) hi
      in take (h - l) (drop l data))"

text \<open>
  \<^verbatim>\<open>create_batches\<close> is a generator; the model is the sequence of tables it yields when
  it is consumed to the end, or the exception that surfaces while consuming it.
\<close>

definition create_batches :: "'a list \<Rightarrow> int \<Rightarrow> py_error + 'a list list" where
  "create_batches data batch_size =
     (case py_range 0 (int (length data)) batch_size of
        Inl e \<Rightarrow> Inl e
      | Inr starts \<Rightarrow> Inr (map (\<lambda>i. iloc_slice data i (i + batch_size)) starts))"

section \<open>Path strings (posixpath)\<close>

text \<open>
  \<^verbatim>\<open>os.path.join(a, b)\<close> with one component: an absolute \<^verbatim>\<open>b\<close> replaces \<^verbatim>\<open>a\<close>;
  otherwise \<^verbatim>\<open>b\<close> is appended, after a separator unless \<^verbatim>\<open>a\<close> is empty or already ends
  with one.
\<close>

definition startswith_sep :: "string \<Rightarrow> bool" where
  "startswith_sep p = (case p of [] \<Rightarrow> False | c # _ \<Rightarrow> c = CHR ''/'')"

definition path_join :: "string \<Rightarrow> string \<Rightarrow> string" where
  "path_join a b =
     (if startswith_sep b then b
      else if a = [] \<or> last a = CHR ''/'' then a @ b
      else a @ ''/'' @ b)"

text \<open>\<^verbatim>\<open>p.split('/')\<close>: the pieces between separators, empty pieces included.\<close>

fun split_sep :: "string \<Rightarrow> string list" where
  "split_sep [] = [[]]"
| "split_sep (c # cs) =
     (if c = CHR ''/'' then [] # split_sep cs
      else (case split_sep cs of [] \<Rightarrow> [[c]] | w # ws \<Rightarrow> (c # w) # ws))"

text \<open>\<^verbatim>\<open>'/'.join(comps)\<close>.\<close>

fun join_sep :: "string list \<Rightarrow> string" where
  "join_sep [] = []"
| "join_sep [w] = w"
| "join_sep (w # ws) = w @ ''/'' @ join_sep ws"

text \<open>
  \<^verbatim>\<open>posixpath.normpath\<close>. One or three and more leading slashes count as one, exactly
  two are kept; empty and \<^verbatim>\<open>.\<close> components are dropped; \<^verbatim>\<open>..\<close> removes the component
  before it, is dropped at the root and is kept at the start of a relative path.
\<close>

definition initial_slashes :: "string \<Rightarrow> nat" where
  "initial_slashes p =
     (if \<not> startswith_sep p then 0
      else if take 2 p = ''//'' \<and> take 3 p \<noteq> ''///'' then 2
      else 1)"

definition norm_step :: "nat \<Rightarrow> string list \<Rightarrow> string \<Rightarrow> string list" where
  "norm_step slashes new_comps part =
     (if part = [] \<or> part = ''.'' then new_comps
      else if part \<noteq> ''..'' \<or> (slashes = 0 \<and> new_comps = [])
                \<or> (new_comps \<noteq> [] \<and> last new_comps = ''..'')
      then new_comps @ [part]
      else if new_comps \<noteq> [] then butlast new_comps
      else new_comps)"

definition normpath :: "string \<Rightarrow> string" where
  "normpath p =
     (if p = [] then ''.''
      else (let slashes = initial_slashes p;
                comps = foldl (norm_step slashes) [] (split_sep p);
                path = replicate slashes CHR ''/'' @ join_sep comps
            in if path = [] then ''.'' else path))"

text \<open>\<^verbatim>\<open>os.path.abspath\<close>, with the current directory \<^verbatim>\<open>os.getcwd()\<close> as a parameter.\<close>

definition abspath :: "string \<Rightarrow> string \<Rightarrow> string" where
  "abspath cwd p = normpath (if startswith_sep p then p else path_join cwd p)"

text \<open>
  \<^verbatim>\<open>posixpath.split\<close>: the text after the last separator is the tail, the text up to it the
  head, with its trailing separators stripped unless it consists of separators only.
  \<^verbatim>\<open>basename\<close> and \<^verbatim>\<open>dirname\<close> are its two halves.
\<close>

definition rstrip_sep :: "string \<Rightarrow> string" where
  "rstrip_sep p = rev (dropWhile (\<lambda>c. c = CHR ''/'') (rev p))"

definition path_split :: "string \<Rightarrow> string \<times> string" where
  "path_split p =
     (let head = rev (dropWhile (\<lambda>c. c \<noteq> CHR ''/'') (rev p));
          tail = rev (takeWhile (\<lambda>c. c \<noteq> CHR ''/'') (rev p))
      in (if head \<noteq> [] \<and> head \<noteq> replicate (length head) CHR ''/'' then rstrip_sep head
          else head, tail))"

definition basename :: "string \<Rightarrow> string" where
  "basename p = snd (path_split p)"

definition dirname :: "string \<Rightarrow> string" where
  "dirname p = fst (path_split p)"

section \<open>process_batch\<close>

text \<open>
  A manifest row carries the three columns \<^verbatim>\<open>process_batch\<close> reads: \<^verbatim>\<open>image_path_rel\<close>,
  \<^verbatim>\<open>class\<close> and \<^verbatim>\<open>type\<close>. The last two are named after the local variables the
  function binds them to (\<^verbatim>\<open>class_id\<close>, \<^verbatim>\<open>type_name\<close>).
\<close>

record manifest_row =
  image_path_rel :: string
  class_id :: int
  type_name :: string

text \<open>
  One row of \<^verbatim>\<open>full_res.pandas().xywhn[0]\<close>: the normalised box, the confidence and the
  model's own class code and class name. The numeric columns are only carried along, so
  their type is a parameter. The columns \<^verbatim>\<open>class\<close> and \<^verbatim>\<open>name\<close> are \<open>det_class\<close> and
  \<open>det_name\<close>.
\<close>

record 'f yolo_row =
  xcenter :: 'f
  ycenter :: 'f
  width :: 'f
  height :: 'f
  confidence :: 'f
  det_class :: int
  det_name :: string

text \<open>A row of the returned table: the same columns and the added \<^verbatim>\<open>file_name\<close>.\<close>

record 'f detection_row = "'f yolo_row" +
  file_name :: string

text \<open>
  The three column assignments \<^verbatim>\<open>results['class'] = class_id\<close>,
  \<^verbatim>\<open>results['name'] = type_name\<close>, \<^verbatim>\<open>results['file_name'] = file\<close>, applied to one row
  of the table.
\<close>

definition assign_labels :: "int \<Rightarrow> string \<Rightarrow> string \<Rightarrow> 'f yolo_row \<Rightarrow> 'f detection_row" where
  "assign_labels cid tname file r =
     yolo_row.extend (r\<lparr>det_class := cid, det_name := tname\<rparr>)
       (detection_row.fields file)"

text \<open>
  The state of the loop: the lines printed so far and the list \<^verbatim>\<open>batch_results\<close>.
  The collaborators are parameters: \<open>imread\<close> is \<^verbatim>\<open>cv2.imread\<close> on the current file
  system (\<open>None\<close> when the image cannot be loaded), \<open>cvtColor\<close> is the BGR to RGB
  conversion and \<open>model\<close> maps an image to the rows of its detection table.
\<close>

record 'f batch_state =
  printed :: "string list"
  batch_results :: "'f detection_row list list"

definition process_row ::
  "(string \<Rightarrow> 'img option) \<Rightarrow> ('img \<Rightarrow> 'img) \<Rightarrow> ('img \<Rightarrow> 'f yolo_row list) \<Rightarrow> string
     \<Rightarrow> manifest_row \<Rightarrow> 'f batch_state \<Rightarrow> 'f batch_state" where
  "process_row imread cvtColor model image_folder row st =
     (let file = image_path_rel row;
          cid = class_id row;
          tname = type_name row;
          image_path = path_join image_folder file
      in case imread image_path of
           None \<Rightarrow> st\<lparr>printed := printed st @ [''Failed to load image: '' @ image_path]\<rparr>
         | Some img \<Rightarrow>
             (let results = model (cvtColor img)
              in if results \<noteq> []
                 then st\<lparr>batch_results :=
                        batch_results st @ [map (assign_labels cid tname file) results]\<rparr>
                 else st))"

fun process_rows ::
  "(string \<Rightarrow> 'img option) \<Rightarrow> ('img \<Rightarrow> 'img) \<Rightarrow> ('img \<Rightarrow> 'f yolo_row list) \<Rightarrow> string
     \<Rightarrow> manifest_row list \<Rightarrow> 'f batch_state \<Rightarrow> 'f batch_state" where
  "process_rows imread cvtColor model image_folder [] st = st"
| "process_rows imread cvtColor model image_folder (row # rows) st =
     process_rows imread cvtColor model image_folder rows
       (process_row imread cvtColor model image_folder row st)"

text \<open>
  The result is the pair of the printed lines and the returned value: \<open>Some\<close> of the
  concatenated table, or \<open>None\<close> for Python's \<^verbatim>\<open>None\<close>.
\<close>

definition process_batch ::
  "(string \<Rightarrow> 'img option) \<Rightarrow> ('img \<Rightarrow> 'img) \<Rightarrow> ('img \<Rightarrow> 'f yolo_row list)
     \<Rightarrow> manifest_row list \<Rightarrow> string \<Rightarrow> string list \<times> 'f detection_row list option" where
  "process_batch imread cvtColor model batch image_folder =
     (let st = process_rows imread cvtColor model image_folder batch
                 \<lparr>printed = [], batch_results = []\<rparr>;
          out = printed st @ [''batch complete returning batch'']
      in if batch_results st \<noteq> []
         then (out, Some (concat (batch_results st)))
         else (out, None))"

text \<open>
  The rows a returned value holds: those of the table, none for \<^verbatim>\<open>None\<close>. It is used to
  state which rows of a batch's table come from which part of the batch.
\<close>

definition table_of :: "'a list option \<Rightarrow> 'a list" where
  "table_of res = (case res of None \<Rightarrow> [] | Some t \<Rightarrow> t)"

section \<open>list_files_recursively and find_files_recursively\<close>

text \<open>
  The directory tree the scanners walk. A directory lists its entries by name in the
  order \<^verbatim>\<open>os.scandir\<close> reports them and is readable or not; a symbolic link carries the
  tree it resolves to, or \<open>None\<close> when it is broken.
\<close>

datatype fs_tree =
    RegularFile
  | SymlinkTo "fs_tree option"
  | Directory bool "(string \<times> fs_tree) list"

text \<open>\<^verbatim>\<open>entry.is_dir()\<close> follows symbolic links; \<^verbatim>\<open>os.path.islink\<close> does not.\<close>

fun is_dir :: "fs_tree \<Rightarrow> bool" where
  "is_dir RegularFile = False"
| "is_dir (SymlinkTo None) = False"
| "is_dir (SymlinkTo (Some t)) = is_dir t"
| "is_dir (Directory readable entries) = True"

fun islink :: "fs_tree \<Rightarrow> bool" where
  "islink (SymlinkTo t) = True"
| "islink t = False"

text \<open>
  \<^verbatim>\<open>os.scandir(top)\<close>, where the argument is what the path \<^verbatim>\<open>top\<close> names (\<open>None\<close> when
  nothing has that name): the entries of a readable directory, an \<^verbatim>\<open>OSError\<close> otherwise.
\<close>

fun scandir :: "fs_tree option \<Rightarrow> py_error + (string \<times> fs_tree) list" where
  "scandir None = Inl FileNotFoundError"
| "scandir (Some RegularFile) = Inl NotADirectoryError"
| "scandir (Some (SymlinkTo t)) = scandir t"
| "scandir (Some (Directory readable entries)) =
     (if readable then Inr entries else Inl PermissionError)"

text \<open>
  \<^verbatim>\<open>os.walk(top)\<close> with its defaults (top-down, \<^verbatim>\<open>onerror=None\<close>, \<^verbatim>\<open>followlinks=False\<close>):
  the triples it yields. A directory that cannot be scanned yields nothing, the error
  being dropped because no \<^verbatim>\<open>onerror\<close> is given. Subdirectories are visited in listing
  order, except those that are symbolic links.
\<close>

function walk :: "string \<Rightarrow> fs_tree option \<Rightarrow> (string \<times> string list \<times> string list) list" where
  "walk topdir node =
     (case scandir node of
        Inl e \<Rightarrow> []
      | Inr entries \<Rightarrow>
          (topdir, map fst (filter (\<lambda>(name, t). is_dir t) entries),
                map fst (filter (\<lambda>(name, t). \<not> is_dir t) entries))
          # concat (map (\<lambda>(name, t). if islink t then [] else walk (path_join topdir name) (Some t))
                      (filter (\<lambda>(name, t). is_dir t) entries)))"
  by pat_completeness auto
termination
proof (relation "measure (\<lambda>(topdir, node). case node of None \<Rightarrow> 0 | Some u \<Rightarrow> size u)")
  show "wf (measure (\<lambda>(topdir, node). case node of None \<Rightarrow> 0 | Some u \<Rightarrow> size u))" by simp
next
  fix topdir :: string and node :: "fs_tree option" and entries :: "(string \<times> fs_tree) list"
    and x :: "string \<times> fs_tree" and name :: string and t :: fs_tree
  assume sc: "scandir node = Inr entries"
    and x: "x \<in> set (filter (\<lambda>(name, t). is_dir t) entries)"
    and xe: "(name, t) = x"
  have sub: "\<And>es. scandir node = Inr es \<Longrightarrow> (name, t) \<in> set es
               \<Longrightarrow> size t < (case node of None \<Rightarrow> 0 | Some u \<Rightarrow> size u)"
  proof (induction node rule: scandir.induct)
    case 1 then show ?case by simp
  next
    case 2 then show ?case by simp
  next
    case (3 u) then show ?case by (cases u) auto
  next
    case (4 readable entries)
    have "size t \<le> size_list (size_prod (\<lambda>_. 0) size) es"
      using 4(2) by (induction es) auto
    with 4 show ?case by (auto split: if_splits)
  qed
  have "(name, t) \<in> set entries" using x xe by auto
  then have "size t < (case node of None \<Rightarrow> 0 | Some u \<Rightarrow> size u)" using sub[OF sc] by simp
  then show "((path_join topdir name, Some t), (topdir, node))
               \<in> measure (\<lambda>(topdir, node). case node of None \<Rightarrow> 0 | Some u \<Rightarrow> size u)"
    by simp
qed

declare walk.simps [simp del]

definition list_files_recursively ::
  "string \<Rightarrow> fs_tree option \<Rightarrow> string \<Rightarrow> py_error + string list" where
  "list_files_recursively cwd tree folder_path =
     Inr (concat (map (\<lambda>(root, dirs, files).
                         map (\<lambda>file. abspath cwd (path_join root file)) files)
                      (walk folder_path tree)))"

text \<open>A \<^verbatim>\<open>pathlib.PurePath(path, name)\<close> object, kept as its two constructor arguments.\<close>

datatype pure_path = PurePath string string

definition find_files_recursively :: "fs_tree option \<Rightarrow> string \<Rightarrow> py_error + pure_path list" where
  "find_files_recursively tree target_path =
     Inr (concat (map (\<lambda>(path, subdirs, files). map (\<lambda>name. PurePath path name) files)
                      (walk target_path tree)))"

text \<open>
  What the scanners can see of a tree: an unreadable directory is replaced by an empty
  readable one. This is the comparison tree for the statement that unreadable
  directories are passed over; it is not part of the program.
\<close>

fun readable_part :: "fs_tree \<Rightarrow> fs_tree" where
  "readable_part RegularFile = RegularFile"
| "readable_part (SymlinkTo None) = SymlinkTo None"
| "readable_part (SymlinkTo (Some t)) = SymlinkTo (Some (readable_part t))"
| "readable_part (Directory readable entries) =
     (if readable then Directory True (map (\<lambda>(name, t). (name, readable_part t)) entries)
      else Directory True [])"

section \<open>populate_with_symlinks\<close>

subsection \<open>The file system the function acts on\<close>

text \<open>
  An entry of the file system is a regular file, a directory, or a symbolic link with
  the target text stored in it. The place of an entry is the list of names that leads
  to it from the root through directories themselves (not through links); the root is
  the empty list and is always a directory. The state holds the table of entries by
  place, the current directory as \<^verbatim>\<open>os.getcwd()\<close> reports it, the lines printed so far,
  and a trace of the successful \<^verbatim>\<open>os.symlink\<close> calls as pairs of target and link path,
  which is what the number of links created by a call is counted from.
\<close>

datatype fs_entry = File | Dir | Link string

type_synonym place = "string list"

record os_state =
  getcwd :: string
  fs_map :: "place \<rightharpoonup> fs_entry"
  symlink_calls :: "(string \<times> string) list"
  stdout :: "string list"

text \<open>
  What a path leads to: an entry at a place, a free name in an existing directory (the
  place a new entry would get), or a failure.
\<close>

datatype resolved = Found place fs_entry | Missing place | Failed py_error

text \<open>
  Path resolution as the kernel does it, one component at a time from a directory
  \<open>d\<close>. Empty and \<^verbatim>\<open>.\<close> components stay in the directory, \<^verbatim>\<open>..\<close> goes to its parent.
  A name that is a directory is entered; a regular file ends the path or fails it with
  \<^verbatim>\<open>ENOTDIR\<close>; a missing name ends it as a free name or fails it with \<^verbatim>\<open>ENOENT\<close>. A
  symbolic link is followed, its target being resolved from the root or from the
  directory of the link and the rest of the path after it, except that a link in the
  last component is returned itself when \<open>follow\<close> is false (\<^verbatim>\<open>lstat\<close>). The first
  argument is the number of links that may still be followed; when it is used up the
  path fails with \<^verbatim>\<open>ELOOP\<close>.
\<close>

fun walk_path ::
  "nat \<Rightarrow> (place \<rightharpoonup> fs_entry) \<Rightarrow> bool \<Rightarrow> place \<Rightarrow> string list \<Rightarrow> resolved" where
  "walk_path fuel m follow d [] = Found d Dir"
| "walk_path fuel m follow d (c # cs) =
     (if c = [] \<or> c = ''.'' then walk_path fuel m follow d cs
      else if c = ''..'' then walk_path fuel m follow (butlast d) cs
      else (case m (d @ [c]) of
              None \<Rightarrow> if cs = [] then Missing (d @ [c]) else Failed FileNotFoundError
            | Some File \<Rightarrow> if cs = [] then Found (d @ [c]) File else Failed NotADirectoryError
            | Some Dir \<Rightarrow> walk_path fuel m follow (d @ [c]) cs
            | Some (Link t) \<Rightarrow>
                if cs = [] \<and> \<not> follow then Found (d @ [c]) (Link t)
                else if t = [] then Failed FileNotFoundError
                else (case fuel of
                        0 \<Rightarrow> Failed OSError
                      | Suc n \<Rightarrow>
                          walk_path n m follow (if startswith_sep t then [] else d)
                            (split_sep t @ cs))))"

text \<open>
  The components of a path as the process sees it: an absolute path as it is, a relative
  one after the current directory.
\<close>

definition path_components :: "os_state \<Rightarrow> string \<Rightarrow> string list" where
  "path_components s p = split_sep (if startswith_sep p then p else path_join (getcwd s) p)"

text \<open>
  \<^verbatim>\<open>stat\<close> follows a link in the last component, \<^verbatim>\<open>lstat\<close> does not. Linux follows at
  most 40 links on the way.
\<close>

definition os_stat :: "os_state \<Rightarrow> string \<Rightarrow> resolved" where
  "os_stat s p = walk_path 40 (fs_map s) True [] (path_components s p)"

definition os_lstat :: "os_state \<Rightarrow> string \<Rightarrow> resolved" where
  "os_lstat s p = walk_path 40 (fs_map s) False [] (path_components s p)"

text \<open>
  \<^verbatim>\<open>os.path.exists\<close> is true when \<^verbatim>\<open>stat\<close> finds an entry (so false for a broken link);
  \<^verbatim>\<open>os.path.islink\<close> is true when \<^verbatim>\<open>lstat\<close> finds a link.
\<close>

definition os_path_exists :: "os_state \<Rightarrow> string \<Rightarrow> bool" where
  "os_path_exists s p = (case os_stat s p of Found k e \<Rightarrow> True | _ \<Rightarrow> False)"

definition os_path_islink :: "os_state \<Rightarrow> string \<Rightarrow> bool" where
  "os_path_islink s p = (case os_lstat s p of Found k (Link t) \<Rightarrow> True | _ \<Rightarrow> False)"

text \<open>\<^verbatim>\<open>os.remove\<close> unlinks a file or a link and refuses a directory.\<close>

definition os_remove :: "os_state \<Rightarrow> string \<Rightarrow> py_error + os_state" where
  "os_remove s p =
     (case os_lstat s p of
        Found k Dir \<Rightarrow> Inl IsADirectoryError
      | Found k e \<Rightarrow> Inr (s\<lparr>fs_map := (fs_map s)(k := None)\<rparr>)
      | Missing k \<Rightarrow> Inl FileNotFoundError
      | Failed err \<Rightarrow> Inl err)"

text \<open>
  \<^verbatim>\<open>os.symlink\<close> and \<^verbatim>\<open>os.mkdir\<close> make a new entry where the path leads to a free name;
  a name that is taken, be it by a broken link, is \<^verbatim>\<open>EEXIST\<close>.
\<close>

definition os_symlink :: "os_state \<Rightarrow> string \<Rightarrow> string \<Rightarrow> py_error + os_state" where
  "os_symlink s target p =
     (case os_lstat s p of
        Found k e \<Rightarrow> Inl FileExistsError
      | Missing k \<Rightarrow> Inr (s\<lparr>fs_map := (fs_map s)(k \<mapsto> Link target),
                            symlink_calls := symlink_calls s @ [(target, p)]\<rparr>)
      | Failed err \<Rightarrow> Inl err)"

definition os_mkdir :: "os_state \<Rightarrow> string \<Rightarrow> py_error + os_state" where
  "os_mkdir s p =
     (case os_lstat s p of
        Found k e \<Rightarrow> Inl FileExistsError
      | Missing k \<Rightarrow> Inr (s\<lparr>fs_map := (fs_map s)(k \<mapsto> Dir)\<rparr>)
      | Failed err \<Rightarrow> Inl err)"

text \<open>
  \<^verbatim>\<open>os.makedirs(name)\<close> with \<^verbatim>\<open>exist_ok=False\<close>: the parent is made first when it does not
  exist, a \<^verbatim>\<open>FileExistsError\<close> from that being passed over, then the directory itself.
  The result is the outcome and the file system left behind.
\<close>

definition makedirs_split :: "string \<Rightarrow> string \<times> string" where
  "makedirs_split name =
     (let (head, tail) = path_split name
      in if tail = [] then path_split head else (head, tail))"

definition mkdir_last :: "os_state \<Rightarrow> string \<Rightarrow> (py_error + unit) \<times> os_state" where
  "mkdir_last s name = (case os_mkdir s name of Inl e \<Rightarrow> (Inl e, s) | Inr s' \<Rightarrow> (Inr (), s'))"

function os_makedirs :: "os_state \<Rightarrow> string \<Rightarrow> (py_error + unit) \<times> os_state" where
  "os_makedirs s name =
     (if fst (makedirs_split name) \<noteq> [] \<and> snd (makedirs_split name) \<noteq> []
         \<and> \<not> os_path_exists s (fst (makedirs_split name))
      then (case os_makedirs s (fst (makedirs_split name)) of
              (Inl e, s1) \<Rightarrow>
                if e \<noteq> FileExistsError then (Inl e, s1)
                else if snd (makedirs_split name) = ''.'' then (Inr (), s1)
                else mkdir_last s1 name
            | (Inr u, s1) \<Rightarrow>
                if snd (makedirs_split name) = ''.'' then (Inr (), s1)
                else mkdir_last s1 name)
      else mkdir_last s name)"
  by pat_completeness auto
termination
proof (relation "measure (\<lambda>(s, name). length name)")
  show "wf (measure (\<lambda>(s, name). length name))" by simp
next
  fix s :: os_state and name :: string
  assume a: "fst (makedirs_split name) \<noteq> [] \<and> snd (makedirs_split name) \<noteq> []
               \<and> \<not> os_path_exists s (fst (makedirs_split name))"
  have len: "\<And>p. length (fst (path_split p)) + length (snd (path_split p)) \<le> length p"
  proof -
    fix p :: string
    have 1: "length (rev (dropWhile (\<lambda>c. c \<noteq> CHR ''/'') (rev p)))
               + length (rev (takeWhile (\<lambda>c. c \<noteq> CHR ''/'') (rev p))) = length p"
      by (metis length_append length_rev takeWhile_dropWhile_id add.commute)
    have 2: "\<And>h. length (rstrip_sep h) \<le> length h"
      unfolding rstrip_sep_def by (metis length_dropWhile_le length_rev)
    show "length (fst (path_split p)) + length (snd (path_split p)) \<le> length p"
      using 1 2[of "rev (dropWhile (\<lambda>c. c \<noteq> CHR ''/'') (rev p))"]
      by (auto simp: path_split_def Let_def)
  qed
  have "length (fst (makedirs_split name)) + length (snd (makedirs_split name)) \<le> length name"
    using len[of name] len[of "fst (path_split name)"]
    by (auto simp: makedirs_split_def Let_def split: prod.splits)
  moreover have "snd (makedirs_split name) \<noteq> []" using a by simp
  then have "0 < length (snd (makedirs_split name))" by simp
  ultimately have "length (fst (makedirs_split name)) < length name" by linarith
  then show "((s, fst (makedirs_split name)), (s, name)) \<in> measure (\<lambda>(s, name). length name)"
    by simp
qed

declare os_makedirs.simps [simp del]

subsection \<open>The function\<close>

text \<open>What a call returns: \<^verbatim>\<open>None\<close> or an integer.\<close>

datatype py_value = PyNone | PyInt int

text \<open>\<^verbatim>\<open>str\<close> of an integer, as the f-string formats the counter.\<close>

function str_nat :: "nat \<Rightarrow> string" where
  "str_nat n =
     (if n < 10 then [char_of (48 + n)]
      else str_nat (n div 10) @ [char_of (48 + n mod 10)])"
  by pat_completeness auto
termination
  by (relation "measure id") auto

definition str_int :: "int \<Rightarrow> string" where
  "str_int i = (if i < 0 then ''-'' @ str_nat (nat (- i)) else str_nat (nat i))"

text \<open>
  The body of the loop for one \<^verbatim>\<open>file_name\<close> (here \<open>fname\<close>), on the state and the counter
  \<^verbatim>\<open>links_created\<close>. An exception leaves the state as it was when it was raised.
\<close>

definition link_file ::
  "string \<Rightarrow> string \<Rightarrow> os_state \<Rightarrow> int \<Rightarrow> (py_error + int) \<times> os_state" where
  "link_file folder_path fname s links_created =
     (let target_file = abspath (getcwd s) fname;
          destination_file = path_join folder_path (basename target_file)
      in if os_path_exists s target_file
         then (case (if os_path_exists s destination_file \<or> os_path_islink s destination_file
                     then os_remove s destination_file else Inr s) of
                 Inl e \<Rightarrow> (Inl e, s)
               | Inr s1 \<Rightarrow>
                   (case os_symlink s1 target_file destination_file of
                      Inl e \<Rightarrow> (Inl e, s1)
                    | Inr s2 \<Rightarrow> (Inr (links_created + 1), s2)))
         else (Inr links_created, s))"

fun link_files ::
  "string \<Rightarrow> string list \<Rightarrow> os_state \<Rightarrow> int \<Rightarrow> (py_error + int) \<times> os_state" where
  "link_files folder_path [] s links_created = (Inr links_created, s)"
| "link_files folder_path (fname # file_list) s links_created =
     (case link_file folder_path fname s links_created of
        (Inl e, s1) \<Rightarrow> (Inl e, s1)
      | (Inr n, s1) \<Rightarrow> link_files folder_path file_list s1 n)"

text \<open>
  The function has no \<^verbatim>\<open>return\<close> statement: after the loop it prints the counter and
  returns \<^verbatim>\<open>None\<close>.
\<close>

definition populate_with_symlinks ::
  "string list \<Rightarrow> string \<Rightarrow> os_state \<Rightarrow> (py_error + py_value) \<times> os_state" where
  "populate_with_symlinks file_list folder_path s =
     (let folder_abs = abspath (getcwd s) folder_path
      in case (if \<not> os_path_exists s folder_abs then os_makedirs s folder_abs else (Inr (), s)) of
           (Inl e, s0) \<Rightarrow> (Inl e, s0)
         | (Inr u, s0) \<Rightarrow>
             (case link_files folder_abs file_list s0 0 of
                (Inl e, s1) \<Rightarrow> (Inl e, s1)
              | (Inr links_created, s1) \<Rightarrow>
                  (Inr PyNone,
                   s1\<lparr>stdout := stdout s1
                         @ [''Total symbolic links created: '' @ str_int links_created]\<rparr>)))"

text \<open>The path of the destination entry the loop computes for a file name.\<close>

definition destination_of :: "string \<Rightarrow> string \<Rightarrow> os_state \<Rightarrow> string" where
  "destination_of folder_path fname s =
     path_join (abspath (getcwd s) folder_path) (basename (abspath (getcwd s) fname))"

text \<open>
  The place a path names: that of the entry it leads to (a link in the last component
  not being followed), or of the free name it leads to. This is the entry \<^verbatim>\<open>os.remove\<close>
  and \<^verbatim>\<open>os.symlink\<close> act on when given the path.
\<close>

definition entry_place :: "os_state \<Rightarrow> string \<Rightarrow> place option" where
  "entry_place s p =
     (case os_lstat s p of Found k e \<Rightarrow> Some k | Missing k \<Rightarrow> Some k | Failed err \<Rightarrow> None)"

text \<open>
  \<^verbatim>\<open>lstat\<close> restricted to paths on which no directory is reached through a symbolic
  link: with no link allowed to be followed, any link on the way to the last component
  is a failure.
\<close>

definition lstat_direct :: "os_state \<Rightarrow> string \<Rightarrow> resolved" where
  "lstat_direct s p = walk_path 0 (fs_map s) False [] (path_components s p)"

section \<open>Properties of create_batches\<close>

lemma range_up_eq:
  "0 < step \<Longrightarrow> range_up i stop step =
     map (\<lambda>k. i + int k * step) [0..<nat ((stop - i + step - 1) div step)]"
proof (induction i stop step rule: range_up.induct)
  case (1 i stop step)
  show ?case
  proof (cases "i < stop")
    case True
    define n where "n = nat ((stop - (i + step) + step - 1) div step)"
    have d: "(stop - i + step - 1) div step = (stop - (i + step) + step - 1) div step + 1"
      using 1(2) by (metis add_diff_cancel_right' diff_add_eq diff_diff_eq2 div_add_self2 less_irrefl)
    have nn: "0 \<le> (stop - (i + step) + step - 1) div step"
      using True 1(2) by (simp add: pos_imp_zdiv_nonneg_iff)
    have sn: "nat ((stop - i + step - 1) div step) = Suc n"
      using d nn by (simp add: n_def nat_add_distrib)
    have ih: "range_up (i + step) stop step = map (\<lambda>k. i + step + int k * step) [0..<n]"
      using 1(1)[OF _ 1(2)] True 1(2) by (simp add: n_def)
    have "range_up i stop step = i # range_up (i + step) stop step"
      using True 1(2) by simp
    also have "\<dots> = i # map (\<lambda>k. i + step + int k * step) [0..<n]" using ih by simp
    also have "\<dots> = map (\<lambda>k. i + int k * step) [0..<Suc n]"
      by (simp add: upt_conv_Cons map_Suc_upt[symmetric] algebra_simps del: upt_Suc)
    finally show ?thesis using sn by simp
  next
    case False
    then have "(stop - i + step - 1) div step \<le> 0"
      using 1(2) by (simp add: leI pos_imp_zdiv_pos_iff)
    then show ?thesis using False by simp
  qed
qed

lemma concat_chunks:
  "concat (map (\<lambda>k. take m (drop (k * m) xs)) [0..<n]) = take (n * m) xs"
proof (induction n)
  case 0 show ?case by simp
next
  case (Suc n)
  have "Suc n * m = n * m + m" by simp
  then have "take (Suc n * m) xs = take (n * m) xs @ take m (drop (n * m) xs)"
    by (simp only: take_add)
  then show ?case using Suc by simp
qed

lemma ceil_div_aux: 
  assumes b: "0 < (b::int)"
  shows "(a + b - 1) div b = (if a mod b = 0 then a div b else a div b + 1)"
proof -
  define q r where "q = a div b" and "r = a mod b"
  have a: "a = q * b + r" by (simp add: q_def r_def)
  have r: "0 \<le> r" "r < b" using b by (simp_all add: r_def)
  show ?thesis
  proof (cases "r = 0")
    case True
    have "(a + b - 1) div b = (b - 1 + q * b) div b" using a True by (simp add: algebra_simps)
    also have "\<dots> = (b - 1) div b + q" using b by (subst div_mult_self1) simp_all
    also have "\<dots> = q" using b by (simp add: div_pos_pos_trivial)
    finally show ?thesis using True by (simp add: q_def r_def)
  next
    case False
    have "(a + b - 1) div b = (r - 1 + (q + 1) * b) div b" using a by (simp add: algebra_simps)
    also have "\<dots> = (r - 1) div b + (q + 1)" using b by (subst div_mult_self1) simp_all
    also have "\<dots> = q + 1" using b r False by (simp add: div_pos_pos_trivial)
    finally show ?thesis using False by (simp add: q_def r_def)
  qed
qed

lemma ceil_div: "0 < (b::int) \<Longrightarrow> \<lceil>real n / real_of_int b\<rceil> = (int n + b - 1) div b"
proof -
  assume b: "0 < b"
  have "\<lceil>real n / real_of_int b\<rceil> = \<lceil>real_of_int (int n) / real_of_int b\<rceil>" by simp
  also have "\<dots> = - (- int n div b)" by (rule ceiling_divide_eq_div)
  also have "\<dots> = (int n + b - 1) div b"
    using b by (simp add: ceil_div_aux zdiv_zminus1_eq_if)
  finally show ?thesis .
qed

lemma slice_chunk_nat:
  "iloc_slice xs (int (k * m)) (int (k * m) + int m) = take m (drop (k * m) xs)"
proof -
  have l: "slice_bound (length xs) (int (k * m)) = min (k * m) (length xs)"
    unfolding slice_bound_def by (simp del: of_nat_mult)
  have "int (k * m) + int m = int (k * m + m)" by simp
  then have h: "slice_bound (length xs) (int (k * m) + int m) = min (k * m + m) (length xs)"
    unfolding slice_bound_def by (simp del: of_nat_mult of_nat_add)
  show ?thesis
  proof (cases "k * m \<le> length xs")
    case True
    then show ?thesis unfolding iloc_slice_def l h Let_def
      by (cases "k * m + m \<le> length xs") (simp_all add: min_def)
  next
    case False
    then show ?thesis unfolding iloc_slice_def l h Let_def by (simp add: min_def)
  qed
qed

lemma slice_chunk:
  assumes "0 < b"
  shows "iloc_slice xs (int k * b) (int k * b + b) = take (nat b) (drop (k * nat b) xs)"
proof -
  obtain m where m: "b = int m" using assms by (metis nat_0_le less_imp_le)
  show ?thesis using slice_chunk_nat[of xs k m] by (simp add: m)
qed


lemma range_up_chunks:
  assumes "0 < b"
  shows "range_up 0 (int n) b = map (\<lambda>k. int k * b) [0..<nat ((int n + b - 1) div b)]"
  using range_up_eq[OF assms, of 0 "int n"] by simp

lemma create_batches_pos:
  assumes "0 < b"
  shows "create_batches xs b =
     Inr (map (\<lambda>k. take (nat b) (drop (k * nat b) xs)) [0..<nat ((int (length xs) + b - 1) div b)])"
  using assms
  by (simp add: create_batches_def py_range_def range_up_chunks slice_chunk o_def del: range_up.simps)

lemma chunks_cover:
  assumes "0 < b"
  shows "length xs \<le> nat ((int (length xs) + b - 1) div b) * nat b"
proof -
  have "int (length xs) + b - 1 < ((int (length xs) + b - 1) div b + 1) * b"
    using assms
    by (metis add.commute div_mult_mod_eq less_add_same_cancel1 mult.commute 
          distrib_left mult.right_neutral add_less_cancel_left pos_mod_bound)
  then have "int (length xs) \<le> ((int (length xs) + b - 1) div b) * b"
    by (simp add: algebra_simps)
  moreover have "0 \<le> (int (length xs) + b - 1) div b"
    using assms by (simp add: pos_imp_zdiv_nonneg_iff)
  ultimately have "int (length xs) \<le> int (nat ((int (length xs) + b - 1) div b) * nat b)"
    using assms by simp
  then show ?thesis by linarith
qed

lemma chunk_full:
  assumes "0 < b" "Suc k < nat ((int (length xs) + b - 1) div b)"
  shows "Suc k * nat b \<le> length xs"
proof -
  have "int (Suc k) < (int (length xs) + b - 1) div b" using assms(2) by linarith
  then have "int (Suc k) + 1 \<le> (int (length xs) + b - 1) div b" by simp
  then have "(int (Suc k) + 1) * b \<le> ((int (length xs) + b - 1) div b) * b"
    using assms(1) by (simp add: mult_right_mono)
  also have "\<dots> \<le> int (length xs) + b - 1"
  proof -
    have "(int (length xs) + b - 1) div b * b + (int (length xs) + b - 1) mod b
            = int (length xs) + b - 1" by simp
    moreover have "0 \<le> (int (length xs) + b - 1) mod b" using assms(1) by simp
    ultimately show ?thesis by linarith
  qed
  finally have f: "(int (Suc k) + 1) * b \<le> int (length xs) + b - 1" .
  have "(int (Suc k) + 1) * b = int (Suc k) * b + b" by (simp add: algebra_simps)
  with f have "int (Suc k) * b \<le> int (length xs)" by linarith
  moreover have "int (Suc k * nat b) = int (Suc k) * b"
    using assms(1) by (simp del: of_nat_Suc mult_Suc)
  ultimately show ?thesis by linarith
qed

text \<open>
  Claim C1. For a table of \<open>N\<close> rows and a batch size \<open>B > 0\<close>, \<^verbatim>\<open>create_batches\<close> yields
  exactly \<open>\<lceil>N / B\<rceil>\<close> batches; batch number \<open>k\<close> is the contiguous slice of \<open>B\<close> rows
  starting at row \<open>k * B\<close>, so the batches in order concatenate to the input, their row
  counts add up to \<open>N\<close>, and every batch except possibly the last has exactly \<open>B\<close> rows.
\<close>

theorem create_batches_partition:
  assumes "0 < b"
  shows "\<exists>bs. create_batches xs b = Inr bs
           \<and> int (length bs) = \<lceil>real (length xs) / real_of_int b\<rceil>
           \<and> (\<forall>k < length bs. bs ! k = take (nat b) (drop (k * nat b) xs))
           \<and> concat bs = xs
           \<and> sum_list (map length bs) = length xs
           \<and> (\<forall>k. Suc k < length bs \<longrightarrow> length (bs ! k) = nat b)"
proof -
  define n where "n = nat ((int (length xs) + b - 1) div b)"
  define bs where "bs = map (\<lambda>k. take (nat b) (drop (k * nat b) xs)) [0..<n]"
  have 1: "create_batches xs b = Inr bs"
    using create_batches_pos[OF assms] by (simp add: bs_def n_def)
  have nn: "0 \<le> (int (length xs) + b - 1) div b"
    using assms by (simp add: pos_imp_zdiv_nonneg_iff)
  have 2: "int (length bs) = \<lceil>real (length xs) / real_of_int b\<rceil>"
    using nn by (simp add: bs_def n_def ceil_div[OF assms])
  have 3: "\<forall>k < length bs. bs ! k = take (nat b) (drop (k * nat b) xs)"
    by (simp add: bs_def)
  have "concat bs = take (n * nat b) xs"
    unfolding bs_def by (rule concat_chunks)
  then have 4: "concat bs = xs"
    using chunks_cover[OF assms, of xs] by (simp add: n_def)
  have 5: "sum_list (map length bs) = length xs"
    using 4 by (metis length_concat)
  have 6: "\<forall>k. Suc k < length bs \<longrightarrow> length (bs ! k) = nat b"
  proof (intro allI impI)
    fix k assume k: "Suc k < length bs"
    then have "Suc k * nat b \<le> length xs"
      using chunk_full[OF assms, of k xs] by (simp add: bs_def n_def)
    then show "length (bs ! k) = nat b" using k by (simp add: bs_def)
  qed
  show ?thesis using 1 2 3 4 5 6 by blast
qed

theorem create_batches_partition_witness:
  "create_batches [1, 2, 3, 4, 5 :: nat] 2 = Inr [[1, 2], [3, 4], [5]]
   \<and> \<lceil>real (length [1, 2, 3, 4, 5 :: nat]) / real_of_int 2\<rceil> = 3"
proof -
  have pos: "(0::int) < 2" by simp
  obtain bs where bs: "create_batches [1, 2, 3, 4, 5 :: nat] 2 = Inr bs"
      "int (length bs) = \<lceil>real (length [1, 2, 3, 4, 5 :: nat]) / real_of_int 2\<rceil>"
    using create_batches_partition[OF pos, of "[1, 2, 3, 4, 5 :: nat]"] by blast
  have "create_batches [1, 2, 3, 4, 5 :: nat] 2 = Inr [[1, 2], [3, 4], [5]]"
    by (simp add: create_batches_def py_range_def iloc_slice_def slice_bound_def)
  with bs show ?thesis by auto
qed

text \<open>
  Claim C6, as the code has it. \<^verbatim>\<open>create_batches\<close> validates nothing and the module has no
  ConfigError. For a batch size of zero, \<^verbatim>\<open>range\<close> raises ValueError when the generator
  is first advanced; for a negative batch size the range is empty, so the generator
  yields no batch and raises nothing.
\<close>

theorem create_batches_nonpositive:
  assumes "b \<le> 0"
  shows "create_batches xs b = (if b = 0 then Inl ValueError else Inr [])"
  using assms by (simp add: create_batches_def py_range_def)

theorem create_batches_nonpositive_witness:
  "(-2::int) \<le> 0 \<and> create_batches [1, 2, 3 :: nat] (-2) = Inr []
   \<and> (0::int) \<le> 0 \<and> create_batches [1, 2, 3 :: nat] 0 = Inl ValueError"
  using create_batches_nonpositive[of "-2" "[1, 2, 3 :: nat]"]
        create_batches_nonpositive[of 0 "[1, 2, 3 :: nat]"]
  by simp

text \<open>
  A negative batch size is not an error: the three-row table with batch size \<open>-2\<close> gives
  the empty sequence of batches.
\<close>

theorem create_batches_negative_counterexample:
  "create_batches [1, 2, 3 :: nat] (-2) = Inr []"
  by (simp add: create_batches_def py_range_def)

section \<open>Properties of process_batch\<close>

lemma process_row_acc:
  "printed (process_row I C M F row st)
     = printed st @ printed (process_row I C M F row \<lparr>printed = [], batch_results = []\<rparr>)"
  "batch_results (process_row I C M F row st)
     = batch_results st @ batch_results (process_row I C M F row \<lparr>printed = [], batch_results = []\<rparr>)"
  by (simp_all add: process_row_def Let_def split: option.split)

lemma process_rows_acc:
  "printed (process_rows I C M F rows st)
     = printed st @ printed (process_rows I C M F rows \<lparr>printed = [], batch_results = []\<rparr>)"
  "batch_results (process_rows I C M F rows st)
     = batch_results st @ batch_results (process_rows I C M F rows \<lparr>printed = [], batch_results = []\<rparr>)"
proof (induction rows arbitrary: st)
  case Nil
  { case 1 show ?case by simp }
  { case 2 show ?case by simp }
next
  case (Cons row rows)
  { case 1
    show ?case
      using Cons.IH(1)[of "process_row I C M F row st"]
            Cons.IH(1)[of "process_row I C M F row \<lparr>printed = [], batch_results = []\<rparr>"]
            process_row_acc(1)[of I C M F row st]
      by simp }
  { case 2
    show ?case
      using Cons.IH(2)[of "process_row I C M F row st"]
            Cons.IH(2)[of "process_row I C M F row \<lparr>printed = [], batch_results = []\<rparr>"]
            process_row_acc(2)[of I C M F row st]
      by simp }
qed

lemma process_rows_append:
  "process_rows I C M F (xs @ ys) st = process_rows I C M F ys (process_rows I C M F xs st)"
  by (induction xs arbitrary: st) simp_all

lemma process_batch_table:
  "table_of (snd (process_batch I C M batch F))
     = concat (batch_results (process_rows I C M F batch \<lparr>printed = [], batch_results = []\<rparr>))"
  by (simp add: process_batch_def Let_def table_of_def)

lemma process_batch_printed:
  "fst (process_batch I C M batch F)
     = printed (process_rows I C M F batch \<lparr>printed = [], batch_results = []\<rparr>)
         @ [''batch complete returning batch'']"
  by (simp add: process_batch_def Let_def)

lemma process_batch_result:
  "snd (process_batch I C M batch F)
     = (if batch_results (process_rows I C M F batch \<lparr>printed = [], batch_results = []\<rparr>) = [] then None
        else Some (concat (batch_results (process_rows I C M F batch \<lparr>printed = [], batch_results = []\<rparr>))))"
  by (simp add: process_batch_def Let_def)

lemma batch_results_nonempty:
  "[] \<notin> set (batch_results st) \<Longrightarrow> [] \<notin> set (batch_results (process_rows I C M F rows st))"
proof (induction rows arbitrary: st)
  case Nil then show ?case by simp
next
  case (Cons row rows)
  have "[] \<notin> set (batch_results (process_row I C M F row st))"
    using Cons.prems by (simp add: process_row_def Let_def split: option.split)
  then show ?case using Cons.IH by simp
qed

lemma batch_results_split:
  "batch_results (process_rows I C M F (pre @ row # post) \<lparr>printed = [], batch_results = []\<rparr>)
    = batch_results (process_rows I C M F pre \<lparr>printed = [], batch_results = []\<rparr>)
      @ batch_results (process_row I C M F row \<lparr>printed = [], batch_results = []\<rparr>)
      @ batch_results (process_rows I C M F post \<lparr>printed = [], batch_results = []\<rparr>)"
proof -
  have "process_rows I C M F (pre @ row # post) \<lparr>printed = [], batch_results = []\<rparr>
         = process_rows I C M F post (process_row I C M F row (process_rows I C M F pre \<lparr>printed = [], batch_results = []\<rparr>))"
    by (simp add: process_rows_append)
  then show ?thesis
    using process_rows_acc(2)[of I C M F post "process_row I C M F row (process_rows I C M F pre \<lparr>printed = [], batch_results = []\<rparr>)"]
          process_row_acc(2)[of I C M F row "process_rows I C M F pre \<lparr>printed = [], batch_results = []\<rparr>"]
    by simp
qed

lemma printed_split:
  "printed (process_rows I C M F (pre @ row # post) \<lparr>printed = [], batch_results = []\<rparr>)
    = printed (process_rows I C M F pre \<lparr>printed = [], batch_results = []\<rparr>)
      @ printed (process_row I C M F row \<lparr>printed = [], batch_results = []\<rparr>)
      @ printed (process_rows I C M F post \<lparr>printed = [], batch_results = []\<rparr>)"
proof -
  have "process_rows I C M F (pre @ row # post) \<lparr>printed = [], batch_results = []\<rparr>
         = process_rows I C M F post (process_row I C M F row (process_rows I C M F pre \<lparr>printed = [], batch_results = []\<rparr>))"
    by (simp add: process_rows_append)
  then show ?thesis
    using process_rows_acc(1)[of I C M F post "process_row I C M F row (process_rows I C M F pre \<lparr>printed = [], batch_results = []\<rparr>)"]
          process_row_acc(1)[of I C M F row "process_rows I C M F pre \<lparr>printed = [], batch_results = []\<rparr>"]
    by simp
qed


lemma process_row_loaded:
  assumes "I (path_join F (image_path_rel row)) = Some img" "M (C img) \<noteq> []"
  shows "batch_results (process_row I C M F row \<lparr>printed = [], batch_results = []\<rparr>)
           = [map (assign_labels (class_id row) (type_name row) (image_path_rel row)) (M (C img))]"
  using assms by (simp add: process_row_def Let_def)

lemma process_row_failed:
  assumes "I (path_join F (image_path_rel row)) = None"
  shows "process_row I C M F row st
           = st\<lparr>printed := printed st @ [''Failed to load image: '' @ path_join F (image_path_rel row)]\<rparr>"
  using assms by (simp add: process_row_def Let_def)

lemma process_row_silent:
  assumes "I (path_join F (image_path_rel row)) = Some img" "M (C img) = []"
  shows "process_row I C M F row st = st"
  using assms by (simp add: process_row_def Let_def)

lemma assign_labels_columns:
  "det_class (assign_labels c t f m) = c"
  "det_name (assign_labels c t f m) = t"
  "file_name (assign_labels c t f m) = f"
  "xcenter (assign_labels c t f m) = xcenter m"
  "ycenter (assign_labels c t f m) = ycenter m"
  "width (assign_labels c t f m) = width m"
  "height (assign_labels c t f m) = height m"
  "confidence (assign_labels c t f m) = confidence m"
  by (simp_all add: assign_labels_def yolo_row.defs detection_row.defs)

text \<open>
  Claim C2. When a manifest row's image loads and the model returns at least one
  detection for it, the rows this image contributes to the returned table (they stand
  between the rows of the manifest rows before it and those of the rows after it, one
  per detection) all carry the manifest row's \<^verbatim>\<open>class\<close> in the class column, its \<^verbatim>\<open>type\<close>
  in the name column and its \<^verbatim>\<open>image_path_rel\<close> in \<^verbatim>\<open>file_name\<close>, whatever class and
  name the model reported; the box and the confidence are the model's.
\<close>

theorem process_batch_label_override:
  assumes "I (path_join F (image_path_rel row)) = Some img"
    and "M (C img) \<noteq> []"
  shows "\<exists>mid. snd (process_batch I C M (pre @ row # post) F)
             = Some (table_of (snd (process_batch I C M pre F)) @ mid
                       @ table_of (snd (process_batch I C M post F)))
          \<and> length mid = length (M (C img))
          \<and> (\<forall>i < length mid.
                det_class (mid ! i) = class_id row
              \<and> det_name (mid ! i) = type_name row
              \<and> file_name (mid ! i) = image_path_rel row
              \<and> xcenter (mid ! i) = xcenter (M (C img) ! i)
              \<and> ycenter (mid ! i) = ycenter (M (C img) ! i)
              \<and> width (mid ! i) = width (M (C img) ! i)
              \<and> height (mid ! i) = height (M (C img) ! i)
              \<and> confidence (mid ! i) = confidence (M (C img) ! i))"
proof -
  define mid where
    "mid = map (assign_labels (class_id row) (type_name row) (image_path_rel row)) (M (C img))"
  have split: "batch_results (process_rows I C M F (pre @ row # post) \<lparr>printed = [], batch_results = []\<rparr>)
      = batch_results (process_rows I C M F pre \<lparr>printed = [], batch_results = []\<rparr>)
        @ [mid]
        @ batch_results (process_rows I C M F post \<lparr>printed = [], batch_results = []\<rparr>)"
    using batch_results_split[of I C M F pre row post] process_row_loaded[where I=I and F=F and row=row and img=img and M=M and C=C] assms
    by (simp add: mid_def)
  have 1: "snd (process_batch I C M (pre @ row # post) F)
             = Some (table_of (snd (process_batch I C M pre F)) @ mid
                       @ table_of (snd (process_batch I C M post F)))"
    unfolding process_batch_table
    by (simp add: process_batch_result split)
  have 2: "length mid = length (M (C img))" by (simp add: mid_def)
  have 3: "\<forall>i < length mid.
                det_class (mid ! i) = class_id row
              \<and> det_name (mid ! i) = type_name row
              \<and> file_name (mid ! i) = image_path_rel row
              \<and> xcenter (mid ! i) = xcenter (M (C img) ! i)
              \<and> ycenter (mid ! i) = ycenter (M (C img) ! i)
              \<and> width (mid ! i) = width (M (C img) ! i)
              \<and> height (mid ! i) = height (M (C img) ! i)
              \<and> confidence (mid ! i) = confidence (M (C img) ! i)"
    by (simp add: mid_def assign_labels_columns)
  show ?thesis using 1 2 3 by blast
qed

text \<open>
  Claim C3. When the image of one row fails to load, the returned value is the one the
  batch without that row gives, and the printed lines are those of the rows before it,
  then the diagnostic naming the image path, then those of the rows after it and the
  closing line. The row is skipped and nothing else changes; \<^verbatim>\<open>process_batch\<close> is a total
  function of the batch here, so the failed load ends neither the loop nor the call.
\<close>

theorem process_batch_load_failure:
  assumes "I (path_join F (image_path_rel row)) = None"
  shows "snd (process_batch I C M (pre @ row # post) F) = snd (process_batch I C M (pre @ post) F)
       \<and> fst (process_batch I C M (pre @ row # post) F)
           = butlast (fst (process_batch I C M pre F))
             @ [''Failed to load image: '' @ path_join F (image_path_rel row)]
             @ fst (process_batch I C M post F)"
proof -
  have r: "process_row I C M F row \<lparr>printed = [], batch_results = []\<rparr>
         = \<lparr>printed = [''Failed to load image: '' @ path_join F (image_path_rel row)],
            batch_results = ([] :: 'b detection_row list list)\<rparr>"
    using process_row_failed[where I=I and F=F and row=row and C=C and M=M
            and st="\<lparr>printed = [], batch_results = []\<rparr>"] assms by simp
  have b: "batch_results (process_rows I C M F (pre @ row # post) \<lparr>printed = [], batch_results = []\<rparr>)
         = batch_results (process_rows I C M F (pre @ post) \<lparr>printed = [], batch_results = []\<rparr>)"
    using batch_results_split[of I C M F pre row post] r
          process_rows_acc(2)[of I C M F post "process_rows I C M F pre \<lparr>printed = [], batch_results = []\<rparr>"]
    by (simp add: process_rows_append)
  have p: "printed (process_rows I C M F (pre @ row # post) \<lparr>printed = [], batch_results = []\<rparr>)
      = printed (process_rows I C M F pre \<lparr>printed = [], batch_results = []\<rparr>)
        @ [''Failed to load image: '' @ path_join F (image_path_rel row)]
        @ printed (process_rows I C M F post \<lparr>printed = [], batch_results = []\<rparr>)"
    using printed_split[of I C M F pre row post] r by simp
  have 1: "snd (process_batch I C M (pre @ row # post) F) = snd (process_batch I C M (pre @ post) F)"
    by (simp add: process_batch_result b)
  have 2: "fst (process_batch I C M (pre @ row # post) F)
           = butlast (fst (process_batch I C M pre F))
             @ [''Failed to load image: '' @ path_join F (image_path_rel row)]
             @ fst (process_batch I C M post F)"
    by (simp add: process_batch_printed p butlast_append)
  show ?thesis using 1 2 by blast
qed

lemma batch_results_empty_iff:
  "batch_results (process_rows I C M F batch \<lparr>printed = [], batch_results = []\<rparr>) = []
     \<longleftrightarrow> (\<forall>row \<in> set batch. \<forall>img. I (path_join F (image_path_rel row)) = Some img \<longrightarrow> M (C img) = [])"
proof (induction batch)
  case Nil
  show ?case by simp
next
  case (Cons row batch)
  have "batch_results (process_rows I C M F (row # batch) \<lparr>printed = [], batch_results = []\<rparr>)
        = batch_results (process_row I C M F row \<lparr>printed = [], batch_results = []\<rparr>)
          @ batch_results (process_rows I C M F batch \<lparr>printed = [], batch_results = []\<rparr>)"
    using batch_results_split[of I C M F "[]" row batch] by simp
  moreover have "batch_results (process_row I C M F row \<lparr>printed = [], batch_results = []\<rparr>) = []
       \<longleftrightarrow> (\<forall>img. I (path_join F (image_path_rel row)) = Some img \<longrightarrow> M (C img) = [])"
    by (simp add: process_row_def Let_def split: option.split)
  ultimately show ?case using Cons.IH by simp
qed

lemma process_rows_silent_row:
  assumes "I (path_join F (image_path_rel row)) = Some img" "M (C img) = []"
  shows "process_rows I C M F (pre @ row # post) st = process_rows I C M F (pre @ post) st"
  using process_row_silent[where I=I and F=F and row=row and img=img and M=M and C=C] assms
  by (simp add: process_rows_append)

text \<open>
  Claim C4. \<^verbatim>\<open>process_batch\<close> returns \<^verbatim>\<open>None\<close> exactly when every row of the batch either
  fails to load or gets no detection from the model, and it never returns an empty
  table. A row whose image loads and gets no box contributes nothing, whatever the other
  rows give: the call prints and returns what it does on the batch without that row. A
  batch whose only row is such a row therefore yields \<^verbatim>\<open>None\<close>.
\<close>

theorem process_batch_empty_marker:
  "(snd (process_batch I C M batch F) = None)
     = (\<forall>row \<in> set batch. \<forall>img. I (path_join F (image_path_rel row)) = Some img \<longrightarrow> M (C img) = [])
   \<and> snd (process_batch I C M batch F) \<noteq> Some []
   \<and> (\<forall>img. I (path_join F (image_path_rel row)) = Some img \<and> M (C img) = [] \<longrightarrow>
         process_batch I C M (pre @ row # post) F = process_batch I C M (pre @ post) F)"
proof -
  have ne: "[] \<notin> set (batch_results (process_rows I C M F batch \<lparr>printed = [], batch_results = []\<rparr>))"
    by (rule batch_results_nonempty) simp
  have 1: "(snd (process_batch I C M batch F) = None)
     = (\<forall>row \<in> set batch. \<forall>img. I (path_join F (image_path_rel row)) = Some img \<longrightarrow> M (C img) = [])"
    using batch_results_empty_iff[of I C M F batch] by (simp add: process_batch_result)
  have 2: "snd (process_batch I C M batch F) \<noteq> Some []"
  proof (cases "batch_results (process_rows I C M F batch \<lparr>printed = [], batch_results = []\<rparr>)")
    case Nil
    then show ?thesis by (simp add: process_batch_result)
  next
    case (Cons t ts)
    then have "t \<noteq> []" using ne by auto
    then show ?thesis using Cons by (simp add: process_batch_result)
  qed
  have 3: "\<forall>img. I (path_join F (image_path_rel row)) = Some img \<and> M (C img) = [] \<longrightarrow>
         process_batch I C M (pre @ row # post) F = process_batch I C M (pre @ post) F"
  proof (intro allI impI)
    fix img
    assume a: "I (path_join F (image_path_rel row)) = Some img \<and> M (C img) = []"
    have "process_rows I C M F (pre @ row # post) \<lparr>printed = [], batch_results = []\<rparr>
            = process_rows I C M F (pre @ post) \<lparr>printed = [], batch_results = []\<rparr>"
      using process_rows_silent_row[where I=I and F=F and row=row and img=img and M=M and C=C] a
      by blast
    then show "process_batch I C M (pre @ row # post) F = process_batch I C M (pre @ post) F"
      by (simp add: process_batch_def)
  qed
  show ?thesis using 1 2 3 by blast
qed


theorem process_batch_label_override_witness:
  "snd (process_batch (\<lambda>p. if p = ''imgs/x.jpg'' then Some (0::nat) else None) id
          (\<lambda>i. [\<lparr>xcenter = 1::int, ycenter = 2, width = 3, height = 4, confidence = 5,
                  det_class = 2, det_name = ''animal''\<rparr>])
          [\<lparr>image_path_rel = ''x.jpg'', class_id = 7, type_name = ''lion''\<rparr>] ''imgs'')
     = Some [\<lparr>xcenter = 1, ycenter = 2, width = 3, height = 4, confidence = 5,
              det_class = 7, det_name = ''lion'', file_name = ''x.jpg''\<rparr>]
   \<and> (\<exists>mid. snd (process_batch (\<lambda>p. if p = ''imgs/x.jpg'' then Some (0::nat) else None) id
          (\<lambda>i. [\<lparr>xcenter = 1::int, ycenter = 2, width = 3, height = 4, confidence = 5,
                  det_class = 2, det_name = ''animal''\<rparr>])
          [\<lparr>image_path_rel = ''x.jpg'', class_id = 7, type_name = ''lion''\<rparr>] ''imgs'') = Some mid
        \<and> length mid = 1 \<and> det_class (mid ! 0) = 7 \<and> det_name (mid ! 0) = ''lion''
        \<and> file_name (mid ! 0) = ''x.jpg'')"
proof -
  let ?I = "\<lambda>p. if p = ''imgs/x.jpg'' then Some (0::nat) else None"
  let ?M = "\<lambda>i::nat. [\<lparr>xcenter = 1::int, ycenter = 2, width = 3, height = 4, confidence = 5,
                  det_class = 2, det_name = ''animal''\<rparr>]"
  let ?row = "\<lparr>image_path_rel = ''x.jpg'', class_id = 7, type_name = ''lion''\<rparr>"
  have h1: "?I (path_join ''imgs'' (image_path_rel ?row)) = Some 0"
    by (simp add: path_join_def startswith_sep_def)
  have h2: "?M (id 0) \<noteq> []" by simp
  have e: "process_batch ?I id ?M [] ''imgs'' = ([''batch complete returning batch''], None)"
    by (simp add: process_batch_def)
  obtain mid where mid:
    "snd (process_batch ?I id ?M ([] @ ?row # []) ''imgs'')
       = Some (table_of (snd (process_batch ?I id ?M [] ''imgs'')) @ mid
                @ table_of (snd (process_batch ?I id ?M [] ''imgs'')))"
    "length mid = length (?M (id 0))"
    "\<forall>i < length mid. det_class (mid ! i) = class_id ?row \<and> det_name (mid ! i) = type_name ?row
         \<and> file_name (mid ! i) = image_path_rel ?row"
    using process_batch_label_override[where I="?I" and C=id and M="?M" and F="''imgs''"
            and row="?row" and img=0 and pre="[]" and post="[]", OF h1 h2]
    by blast
  have a: "snd (process_batch ?I id ?M [?row] ''imgs'') = Some mid"
    using mid(1) by (simp add: e table_of_def)
  have b: "length mid = 1" using mid(2) by simp
  have c: "det_class (mid ! 0) = 7 \<and> det_name (mid ! 0) = ''lion'' \<and> file_name (mid ! 0) = ''x.jpg''"
    using mid(3) b by simp
  have d: "snd (process_batch ?I id ?M [?row] ''imgs'')
     = Some [\<lparr>xcenter = 1, ycenter = 2, width = 3, height = 4, confidence = 5,
              det_class = 7, det_name = ''lion'', file_name = ''x.jpg''\<rparr>]"
    by (simp add: process_batch_def process_row_def path_join_def startswith_sep_def
          assign_labels_def yolo_row.defs detection_row.defs)
  show ?thesis using a b c d by blast
qed

theorem process_batch_load_failure_witness:
  "process_batch (\<lambda>p. if p = ''imgs/c.jpg'' then None else Some (0::nat)) id
      (\<lambda>i. [\<lparr>xcenter = 1::int, ycenter = 2, width = 3, height = 4, confidence = 5,
              det_class = 2, det_name = ''animal''\<rparr>])
      [\<lparr>image_path_rel = ''a.jpg'', class_id = 1, type_name = ''ant''\<rparr>,
       \<lparr>image_path_rel = ''b.jpg'', class_id = 2, type_name = ''bat''\<rparr>,
       \<lparr>image_path_rel = ''c.jpg'', class_id = 3, type_name = ''cat''\<rparr>,
       \<lparr>image_path_rel = ''d.jpg'', class_id = 4, type_name = ''dog''\<rparr>,
       \<lparr>image_path_rel = ''e.jpg'', class_id = 5, type_name = ''eel''\<rparr>] ''imgs''
   = ([''Failed to load image: imgs/c.jpg'', ''batch complete returning batch''],
      Some [\<lparr>xcenter = 1, ycenter = 2, width = 3, height = 4, confidence = 5,
              det_class = 1, det_name = ''ant'', file_name = ''a.jpg''\<rparr>,
            \<lparr>xcenter = 1, ycenter = 2, width = 3, height = 4, confidence = 5,
              det_class = 2, det_name = ''bat'', file_name = ''b.jpg''\<rparr>,
            \<lparr>xcenter = 1, ycenter = 2, width = 3, height = 4, confidence = 5,
              det_class = 4, det_name = ''dog'', file_name = ''d.jpg''\<rparr>,
            \<lparr>xcenter = 1, ycenter = 2, width = 3, height = 4, confidence = 5,
              det_class = 5, det_name = ''eel'', file_name = ''e.jpg''\<rparr>])"
proof -
  let ?I = "\<lambda>p. if p = ''imgs/c.jpg'' then None else Some (0::nat)"
  let ?M = "\<lambda>i::nat. [\<lparr>xcenter = 1::int, ycenter = 2, width = 3, height = 4, confidence = 5,
                  det_class = 2, det_name = ''animal''\<rparr>]"
  let ?a = "\<lparr>image_path_rel = ''a.jpg'', class_id = 1, type_name = ''ant''\<rparr>"
  let ?b = "\<lparr>image_path_rel = ''b.jpg'', class_id = 2, type_name = ''bat''\<rparr>"
  let ?c = "\<lparr>image_path_rel = ''c.jpg'', class_id = 3, type_name = ''cat''\<rparr>"
  let ?d = "\<lparr>image_path_rel = ''d.jpg'', class_id = 4, type_name = ''dog''\<rparr>"
  let ?e = "\<lparr>image_path_rel = ''e.jpg'', class_id = 5, type_name = ''eel''\<rparr>"
  have h: "?I (path_join ''imgs'' (image_path_rel ?c)) = None"
    by (simp add: path_join_def startswith_sep_def)
  have t: "snd (process_batch ?I id ?M ([?a, ?b] @ ?c # [?d, ?e]) ''imgs'')
             = snd (process_batch ?I id ?M ([?a, ?b] @ [?d, ?e]) ''imgs'')"
      "fst (process_batch ?I id ?M ([?a, ?b] @ ?c # [?d, ?e]) ''imgs'')
           = butlast (fst (process_batch ?I id ?M [?a, ?b] ''imgs''))
             @ [''Failed to load image: '' @ path_join ''imgs'' (image_path_rel ?c)]
             @ fst (process_batch ?I id ?M [?d, ?e] ''imgs'')"
    using process_batch_load_failure[where I="?I" and C=id and M="?M" and F="''imgs''"
            and row="?c" and pre="[?a, ?b]" and post="[?d, ?e]", OF h]
    by blast+
  have r: "snd (process_batch ?I id ?M [?a, ?b, ?d, ?e] ''imgs'')
      = Some [\<lparr>xcenter = 1, ycenter = 2, width = 3, height = 4, confidence = 5,
              det_class = 1, det_name = ''ant'', file_name = ''a.jpg''\<rparr>,
            \<lparr>xcenter = 1, ycenter = 2, width = 3, height = 4, confidence = 5,
              det_class = 2, det_name = ''bat'', file_name = ''b.jpg''\<rparr>,
            \<lparr>xcenter = 1, ycenter = 2, width = 3, height = 4, confidence = 5,
              det_class = 4, det_name = ''dog'', file_name = ''d.jpg''\<rparr>,
            \<lparr>xcenter = 1, ycenter = 2, width = 3, height = 4, confidence = 5,
              det_class = 5, det_name = ''eel'', file_name = ''e.jpg''\<rparr>]"
    by (simp add: process_batch_def process_row_def path_join_def startswith_sep_def
          assign_labels_def yolo_row.defs detection_row.defs)
  have p1: "fst (process_batch ?I id ?M [?a, ?b] ''imgs'') = [''batch complete returning batch'']"
    by (simp add: process_batch_def process_row_def path_join_def startswith_sep_def)
  have p2: "fst (process_batch ?I id ?M [?d, ?e] ''imgs'') = [''batch complete returning batch'']"
    by (simp add: process_batch_def process_row_def path_join_def startswith_sep_def)
  have pj: "path_join ''imgs'' (image_path_rel ?c) = ''imgs/c.jpg''"
    by (simp add: path_join_def startswith_sep_def)
  have s: "snd (process_batch ?I id ?M [?a, ?b, ?c, ?d, ?e] ''imgs'')
             = snd (process_batch ?I id ?M [?a, ?b, ?d, ?e] ''imgs'')"
    using t(1) by simp
  have f: "fst (process_batch ?I id ?M [?a, ?b, ?c, ?d, ?e] ''imgs'')
             = [''Failed to load image: imgs/c.jpg'', ''batch complete returning batch'']"
    using t(2) unfolding p1 p2 pj by simp
  show ?thesis using s f r by (simp add: prod_eq_iff)
qed

theorem process_batch_empty_marker_witness:
  "snd (process_batch (\<lambda>p. Some (0::nat)) id (\<lambda>i. ([] :: int yolo_row list))
          [\<lparr>image_path_rel = ''x.jpg'', class_id = 7, type_name = ''lion''\<rparr>] ''imgs'') = None
   \<and> process_batch (\<lambda>p. if p = ''imgs/a.jpg'' then Some (0::nat) else Some 1) id
        (\<lambda>i. if i = 0 then [\<lparr>xcenter = 1::int, ycenter = 2, width = 3, height = 4, confidence = 5,
                               det_class = 2, det_name = ''animal''\<rparr>] else [])
        [\<lparr>image_path_rel = ''a.jpg'', class_id = 1, type_name = ''ant''\<rparr>,
         \<lparr>image_path_rel = ''z.jpg'', class_id = 9, type_name = ''zebra''\<rparr>] ''imgs''
     = ([''batch complete returning batch''],
        Some [\<lparr>xcenter = 1, ycenter = 2, width = 3, height = 4, confidence = 5,
                det_class = 1, det_name = ''ant'', file_name = ''a.jpg''\<rparr>])"
proof -
  let ?I = "\<lambda>p. if p = ''imgs/a.jpg'' then Some (0::nat) else Some 1"
  let ?M = "\<lambda>i::nat. if i = 0 then [\<lparr>xcenter = 1::int, ycenter = 2, width = 3, height = 4,
                 confidence = 5, det_class = 2, det_name = ''animal''\<rparr>] else []"
  let ?a = "\<lparr>image_path_rel = ''a.jpg'', class_id = 1, type_name = ''ant''\<rparr>"
  let ?z = "\<lparr>image_path_rel = ''z.jpg'', class_id = 9, type_name = ''zebra''\<rparr>"
  have one: "snd (process_batch (\<lambda>p. Some (0::nat)) id (\<lambda>i. ([] :: int yolo_row list))
          [\<lparr>image_path_rel = ''x.jpg'', class_id = 7, type_name = ''lion''\<rparr>] ''imgs'') = None"
    using process_batch_empty_marker[where I="\<lambda>p. Some (0::nat)" and C=id
          and M="\<lambda>i. ([] :: int yolo_row list)"
          and batch="[\<lparr>image_path_rel = ''x.jpg'', class_id = 7, type_name = ''lion''\<rparr>]"
          and F="''imgs''"]
    by simp
  have h: "?I (path_join ''imgs'' (image_path_rel ?z)) = Some 1 \<and> ?M (id 1) = []"
    by (simp add: path_join_def startswith_sep_def)
  have "process_batch ?I id ?M ([?a] @ ?z # []) ''imgs'' = process_batch ?I id ?M ([?a] @ []) ''imgs''"
    using process_batch_empty_marker[where I="?I" and C=id and M="?M" and F="''imgs''"
            and row="?z" and pre="[?a]" and post="[]"] h
    by blast
  moreover have "process_batch ?I id ?M [?a] ''imgs''
     = ([''batch complete returning batch''],
        Some [\<lparr>xcenter = 1, ycenter = 2, width = 3, height = 4, confidence = 5,
                det_class = 1, det_name = ''ant'', file_name = ''a.jpg''\<rparr>])"
    by (simp add: process_batch_def process_row_def path_join_def startswith_sep_def
          assign_labels_def yolo_row.defs detection_row.defs)
  ultimately show ?thesis using one by simp
qed

section \<open>Properties of the directory scanners\<close>

lemma is_dir_readable_part [simp]: "is_dir (readable_part t) = is_dir t"
  by (induction t rule: readable_part.induct) simp_all

lemma islink_readable_part [simp]: "islink (readable_part t) = islink t"
  by (induction t rule: readable_part.induct) simp_all

lemma scandir_readable_part_Inr:
  "scandir node = Inr entries \<Longrightarrow>
     scandir (map_option readable_part node) = Inr (map (\<lambda>(name, t). (name, readable_part t)) entries)"
proof (induction node rule: scandir.induct)
  case (3 t) then show ?case by (cases t) simp_all
qed (auto split: if_splits)

lemma scandir_readable_part_Inl:
  "scandir node = Inl e \<Longrightarrow>
     scandir (map_option readable_part node) = Inr [] \<or> (\<exists>e'. scandir (map_option readable_part node) = Inl e')"
proof (induction node rule: scandir.induct)
  case (3 t) then show ?case by (cases t) simp_all
qed (auto split: if_splits)

lemma walk_unscannable: "scandir node = Inl e \<Longrightarrow> walk topdir node = []"
  by (subst walk.simps) simp

lemma walk_empty_dir: "scandir node = Inr [] \<Longrightarrow> walk topdir node = [(topdir, [], [])]"
  by (subst walk.simps) simp

lemma walk_scannable:
  "scandir node = Inr entries \<Longrightarrow> walk topdir node =
     (topdir, map fst (filter (\<lambda>(name, t). is_dir t) entries),
              map fst (filter (\<lambda>(name, t). \<not> is_dir t) entries))
     # concat (map (\<lambda>(name, t). if islink t then [] else walk (path_join topdir name) (Some t))
                 (filter (\<lambda>(name, t). is_dir t) entries))"
  by (subst walk.simps) simp

lemma walk_files_readable_part:
  "concat (map (\<lambda>(root, dirs, files). map (h root) files) (walk topdir (map_option readable_part node)))
     = concat (map (\<lambda>(root, dirs, files). map (h root) files) (walk topdir node))"
proof (induction topdir node rule: walk.induct)
  case (1 topdir node)
  show ?case
  proof (cases "scandir node")
    case (Inl e)
    then have "walk topdir node = []" by (rule walk_unscannable)
    moreover have "walk topdir (map_option readable_part node) = []
                 \<or> walk topdir (map_option readable_part node) = [(topdir, [], [])]"
      using scandir_readable_part_Inl[OF Inl] walk_unscannable walk_empty_dir by blast
    ultimately show ?thesis by auto
  next
    case (Inr entries)
    let ?entries' = "map (\<lambda>(name, t). (name, readable_part t)) entries"
    have sc': "scandir (map_option readable_part node) = Inr ?entries'"
      by (rule scandir_readable_part_Inr[OF Inr])
    have d: "map fst (filter (\<lambda>(name, t). is_dir t) ?entries')
               = map fst (filter (\<lambda>(name, t). is_dir t) entries)"
      by (induction entries) auto
    have f: "map fst (filter (\<lambda>(name, t). \<not> is_dir t) ?entries')
               = map fst (filter (\<lambda>(name, t). \<not> is_dir t) entries)"
      by (induction entries) auto
    have sub: "concat (map (\<lambda>(root, dirs, files). map (h root) files)
                  (concat (map (\<lambda>(name, t). if islink t then [] else walk (path_join topdir name) (Some t))
                      (filter (\<lambda>(name, t). is_dir t) ?entries'))))
             = concat (map (\<lambda>(root, dirs, files). map (h root) files)
                  (concat (map (\<lambda>(name, t). if islink t then [] else walk (path_join topdir name) (Some t))
                      (filter (\<lambda>(name, t). is_dir t) entries))))"
      using "1.IH"[OF Inr]
    proof (induction entries)
      case Nil show ?case by simp
    next
      case (Cons x xs)
      obtain name t where x: "x = (name, t)" by (cases x)
      have ih: "concat (map (\<lambda>(root, dirs, files). map (h root) files)
                  (concat (map (\<lambda>(name, t). if islink t then [] else walk (path_join topdir name) (Some t))
                      (filter (\<lambda>(name, t). is_dir t) (map (\<lambda>(name, t). (name, readable_part t)) xs)))))
             = concat (map (\<lambda>(root, dirs, files). map (h root) files)
                  (concat (map (\<lambda>(name, t). if islink t then [] else walk (path_join topdir name) (Some t))
                      (filter (\<lambda>(name, t). is_dir t) xs))))"
        using Cons.IH Cons.prems by auto
      show ?case
      proof (cases "is_dir t \<and> \<not> islink t")
        case True
        have "concat (map (\<lambda>(root, dirs, files). map (h root) files)
                 (walk (path_join topdir name) (map_option readable_part (Some t))))
            = concat (map (\<lambda>(root, dirs, files). map (h root) files)
                 (walk (path_join topdir name) (Some t)))"
          using Cons.prems[of "(name, t)" name t] True x by simp
        then show ?thesis using ih True x by simp
      next
        case False
        then show ?thesis using ih x by auto
      qed
    qed
    show ?thesis
      unfolding walk_scannable[OF Inr] walk_scannable[OF sc'] d f
      using sub by simp
  qed
qed


text \<open>
  Claim C7, as the code has it. \<^verbatim>\<open>os.walk\<close> is called without \<^verbatim>\<open>onerror\<close>, so a root that
  cannot be scanned (missing, unreadable, not a directory) makes both scanners return
  the empty list; nothing is raised. Unreadable directories below the root are passed
  over without any message and the rest of the tree is still listed: both scanners
  return what they return on the tree in which every unreadable directory is empty.
\<close>

theorem scanners_skip_unscannable:
  "(\<forall>e. scandir tree = Inl e \<longrightarrow>
       list_files_recursively cwd tree folder_path = Inr []
     \<and> find_files_recursively tree folder_path = Inr [])
   \<and> list_files_recursively cwd (map_option readable_part tree) folder_path
       = list_files_recursively cwd tree folder_path
   \<and> find_files_recursively (map_option readable_part tree) folder_path
       = find_files_recursively tree folder_path"
proof -
  have 1: "\<forall>e. scandir tree = Inl e \<longrightarrow>
       list_files_recursively cwd tree folder_path = Inr []
     \<and> find_files_recursively tree folder_path = Inr []"
    by (simp add: list_files_recursively_def find_files_recursively_def walk_unscannable)
  have 2: "list_files_recursively cwd (map_option readable_part tree) folder_path
       = list_files_recursively cwd tree folder_path"
    unfolding list_files_recursively_def
    using walk_files_readable_part[of "\<lambda>root file. abspath cwd (path_join root file)" folder_path tree]
    by simp
  have 3: "find_files_recursively (map_option readable_part tree) folder_path
       = find_files_recursively tree folder_path"
    unfolding find_files_recursively_def
    using walk_files_readable_part[of PurePath folder_path tree]
    by simp
  show ?thesis using 1 2 3 by blast
qed

theorem scanners_skip_unscannable_witness:
  "list_files_recursively ''/home'' None ''/missing'' = Inr []
   \<and> find_files_recursively (Some (Directory False [(''c.jpg'', RegularFile)])) ''/locked'' = Inr []
   \<and> list_files_recursively ''/home''
        (Some (Directory True [(''a.jpg'', RegularFile),
                                (''locked'', Directory False [(''c.jpg'', RegularFile)]),
                                (''sub'', Directory True [(''b.jpg'', RegularFile)])])) ''data''
      = Inr [''/home/data/a.jpg'', ''/home/data/sub/b.jpg'']"
proof -
  let ?t = "Directory True [(''a.jpg'', RegularFile),
                             (''locked'', Directory False [(''c.jpg'', RegularFile)]),
                             (''sub'', Directory True [(''b.jpg'', RegularFile)])]"
  have a: "list_files_recursively ''/home'' None ''/missing'' = Inr []"
    using scanners_skip_unscannable[of None "''/home''" "''/missing''"] by simp
  have b: "find_files_recursively (Some (Directory False [(''c.jpg'', RegularFile)])) ''/locked'' = Inr []"
    using scanners_skip_unscannable[of "Some (Directory False [(''c.jpg'', RegularFile)])"
            "''/home''" "''/locked''"] by simp
  have "list_files_recursively ''/home'' (Some ?t) ''data''
          = list_files_recursively ''/home'' (map_option readable_part (Some ?t)) ''data''"
    using scanners_skip_unscannable[of "Some ?t" "''/home''" "''data''"] by simp
  also have "\<dots> = Inr [''/home/data/a.jpg'', ''/home/data/sub/b.jpg'']"
    by (simp add: list_files_recursively_def walk.simps path_join_def startswith_sep_def
          abspath_def normpath_def initial_slashes_def norm_step_def)
  finally show ?thesis using a b by blast
qed

text \<open>
  A missing root and an unreadable root give an empty list, not an error.
\<close>

theorem scanner_missing_root_counterexample:
  "list_files_recursively ''/home'' None ''/missing'' = Inr []
   \<and> find_files_recursively None ''/missing'' = Inr []
   \<and> list_files_recursively ''/home'' (Some (Directory False [(''c.jpg'', RegularFile)])) ''/locked'' = Inr []"
  by (simp add: list_files_recursively_def find_files_recursively_def walk.simps)

section \<open>Properties of populate_with_symlinks\<close>

subsection \<open>Path resolution and what the file system operations leave unchanged\<close>

lemma walk_missing_free:
  "walk_path fuel m follow d cs = Missing k \<Longrightarrow> m k = None"
  by (induction fuel m follow d cs rule: walk_path.induct)
     (auto split: if_splits option.splits fs_entry.splits nat.splits)

lemma walk_found_entry:
  "walk_path fuel m follow d cs = Found k e \<Longrightarrow> e \<noteq> Dir \<Longrightarrow> m k = Some e"
  by (induction fuel m follow d cs rule: walk_path.induct)
     (auto split: if_splits option.splits fs_entry.splits nat.splits)

lemma walk_after_removal:
  "walk_path fuel (m(k0 := None)) follow d cs = walk_path fuel m follow d cs
   \<or> walk_path fuel (m(k0 := None)) follow d cs = Missing k0
   \<or> walk_path fuel (m(k0 := None)) follow d cs = Failed FileNotFoundError"
proof (induction fuel m follow d cs rule: walk_path.induct)
  case (1 fuel m follow d)
  show ?case by simp
next
  case (2 fuel m follow d c cs)
  show ?case
  proof (cases "c = [] \<or> c = ''.''")
    case True
    then show ?thesis using 2(1) by auto
  next
    case False
    note nd = False
    show ?thesis
    proof (cases "c = ''..''")
      case True
      then show ?thesis using 2(2) nd by auto
    next
      case False
      note ndd = False
      show ?thesis
      proof (cases "d @ [c] = k0")
        case True
        then show ?thesis using nd ndd by auto
      next
        case False
        then have same: "(m(k0 := None)) (d @ [c]) = m (d @ [c])" by simp
        show ?thesis
        proof (cases "m (d @ [c])")
          case None
          then show ?thesis using nd ndd same by simp
        next
          case (Some e)
          show ?thesis
          proof (cases e)
            case File
            then show ?thesis using nd ndd same Some by simp
          next
            case Dir
            then show ?thesis using nd ndd same Some 2(3)[OF nd ndd Some Dir] by simp
          next
            case (Link t)
            show ?thesis
            proof (cases "(cs = [] \<and> \<not> follow) \<or> t = []")
              case True
              then show ?thesis using nd ndd same Some Link by auto
            next
              case False
              then have a: "\<not> (cs = [] \<and> \<not> follow)" and b: "t \<noteq> []" by auto
              show ?thesis
              proof (cases fuel)
                case 0
                then show ?thesis using nd ndd same Some Link a b by auto
              next
                case (Suc n)
                show ?thesis
                  using 2(4)[OF nd ndd Some Link a b Suc] nd ndd same Some Link a b Suc
                  by auto
              qed
            qed
          qed
        qed
      qed
    qed
  qed
qed


lemma walk_direct_more_fuel:
  "walk_path 0 m follow d cs = r \<Longrightarrow> r \<noteq> Failed OSError \<Longrightarrow> walk_path n m follow d cs = r"
proof (induction cs arbitrary: d)
  case Nil then show ?case by simp
next
  case (Cons c cs)
  show ?case
  proof (cases "m (d @ [c])")
    case None
    then show ?thesis using Cons by (auto split: if_splits)
  next
    case (Some e)
    then show ?thesis using Cons by (cases e) (auto split: if_splits)
  qed
qed

lemma walk_direct_removal:
  "walk_path 0 m False d cs = Found k e \<Longrightarrow> e \<noteq> Dir
     \<Longrightarrow> walk_path 0 (m(k := None)) False d cs = Missing k"
proof (induction cs arbitrary: d)
  case Nil then show ?case by simp
next
  case (Cons c cs)
  have mk: "m k = Some e" using walk_found_entry[OF Cons.prems] .
  show ?case
  proof (cases "c = [] \<or> c = ''.'' \<or> c = ''..''")
    case True
    then show ?thesis using Cons by (auto split: if_splits)
  next
    case False
    show ?thesis
    proof (cases "m (d @ [c])")
      case None
      then show ?thesis using Cons.prems False by (auto split: if_splits)
    next
      case (Some e')
      show ?thesis
      proof (cases e')
        case File
        then show ?thesis using Cons.prems False Some by (auto split: if_splits)
      next
        case Dir
        have "d @ [c] \<noteq> k" using mk Some Dir Cons.prems(2) by auto
        then show ?thesis using Cons.prems Cons.IH[of "d @ [c]"] False Some Dir by auto
      next
        case (Link t)
        then show ?thesis using Cons.prems False Some by (auto split: if_splits)
      qed
    qed
  qed
qed

lemma walk_file_follow_aux:
  "\<not> follow \<Longrightarrow> walk_path fuel m follow d cs = Found k File
     \<Longrightarrow> walk_path fuel m True d cs = Found k File"
proof (induction fuel m follow d cs rule: walk_path.induct)
  case (1 fuel m follow d)
  then show ?case by simp
next
  case (2 fuel m follow d c cs)
  show ?case
  proof (cases "c = [] \<or> c = ''.''")
    case True
    then show ?thesis using 2(1)[OF True 2(5)] 2(6) by auto
  next
    case False
    note nd = False
    show ?thesis
    proof (cases "c = ''..''")
      case True
      then show ?thesis using 2(2)[OF nd True 2(5)] 2(6) nd by auto
    next
      case False
      note ndd = False
      show ?thesis
      proof (cases "m (d @ [c])")
        case None
        then show ?thesis using nd ndd 2(6) by (auto split: if_splits)
      next
        case (Some e)
        show ?thesis
        proof (cases e)
          case File
          then show ?thesis using nd ndd Some 2(6) by (auto split: if_splits)
        next
          case Dir
          then show ?thesis using nd ndd Some 2(6) 2(3)[OF nd ndd Some Dir 2(5)] by simp
        next
          case (Link t)
          have a: "\<not> (cs = [] \<and> \<not> follow)" using nd ndd Some Link 2(5) 2(6) by auto
          then have cs: "cs \<noteq> []" using 2(5) by simp
          have b: "t \<noteq> []" using nd ndd Some Link 2(6) a by auto
          show ?thesis
          proof (cases fuel)
            case 0
            then show ?thesis using nd ndd Some Link 2(6) a b by auto
          next
            case (Suc n)
            have "walk_path n m follow (if startswith_sep t then [] else d) (split_sep t @ cs)
                    = Found k File"
              using nd ndd Some Link 2(6) a b Suc by simp
            then have "walk_path n m True (if startswith_sep t then [] else d) (split_sep t @ cs)
                    = Found k File"
              using 2(4)[OF nd ndd Some Link a b Suc 2(5)] by simp
            then show ?thesis using nd ndd Some Link cs b Suc by simp
          qed
        qed
      qed
    qed
  qed
qed

lemma walk_file_follow:
  "walk_path fuel m False d cs = Found k File \<Longrightarrow> walk_path fuel m True d cs = Found k File"
  using walk_file_follow_aux[of False] by simp

lemma walk_last_name_aux:
  "\<not> follow \<Longrightarrow> walk_path fuel m follow d cs = r
     \<Longrightarrow> r = Missing k \<or> (r = Found k e \<and> e \<noteq> Dir)
     \<Longrightarrow> k \<noteq> [] \<and> cs \<noteq> [] \<and> last k = last cs"
proof (induction fuel m follow d cs rule: walk_path.induct)
  case (1 fuel m follow d)
  then show ?case by auto
next
  case (2 fuel m follow d c cs)
  note nf = 2(5) and w = 2(6) and r = 2(7)
  show ?case
  proof (cases "c = [] \<or> c = ''.''")
    case True
    then have "walk_path fuel m follow d cs = r" using w by auto
    then have "k \<noteq> [] \<and> cs \<noteq> [] \<and> last k = last cs" using 2(1)[OF True nf _ r] by simp
    then show ?thesis by simp
  next
    case False
    note nd = False
    show ?thesis
    proof (cases "c = ''..''")
      case True
      then have "walk_path fuel m follow (butlast d) cs = r" using w nd by auto
      then have "k \<noteq> [] \<and> cs \<noteq> [] \<and> last k = last cs" using 2(2)[OF nd True nf _ r] by simp
      then show ?thesis by simp
    next
      case False
      note ndd = False
      show ?thesis
      proof (cases "m (d @ [c])")
        case None
        then show ?thesis using nd ndd w r by (auto split: if_splits)
      next
        case (Some e')
        show ?thesis
        proof (cases e')
          case File
          then show ?thesis using nd ndd Some w r by (auto split: if_splits)
        next
          case Dir
          then have "walk_path fuel m follow (d @ [c]) cs = r" using nd ndd Some w by simp
          then have "k \<noteq> [] \<and> cs \<noteq> [] \<and> last k = last cs"
            using 2(3)[OF nd ndd Some Dir nf _ r] by simp
          then show ?thesis by simp
        next
          case (Link t)
          show ?thesis
          proof (cases "cs = []")
            case True
            then show ?thesis using nd ndd Some Link w r nf by auto
          next
            case False
            then have a: "\<not> (cs = [] \<and> \<not> follow)" by simp
            have b: "t \<noteq> []" using nd ndd Some Link w r a by auto
            show ?thesis
            proof (cases fuel)
              case 0
              then show ?thesis using nd ndd Some Link w r a b by auto
            next
              case (Suc n)
              have "walk_path n m follow (if startswith_sep t then [] else d) (split_sep t @ cs) = r"
                using nd ndd Some Link w a b Suc by simp
              then have "k \<noteq> [] \<and> split_sep t @ cs \<noteq> [] \<and> last k = last (split_sep t @ cs)"
                using 2(4)[OF nd ndd Some Link a b Suc nf _ r] by simp
              then show ?thesis using False by simp
            qed
          qed
        qed
      qed
    qed
  qed
qed

lemma walk_last_name:
  "walk_path fuel m False d cs = r \<Longrightarrow> r = Missing k \<or> (r = Found k e \<and> e \<noteq> Dir)
     \<Longrightarrow> k \<noteq> [] \<and> cs \<noteq> [] \<and> last k = last cs"
  using walk_last_name_aux[of False] by simp


lemma path_components_cong: "getcwd s' = getcwd s \<Longrightarrow> path_components s' p = path_components s p"
  by (simp add: path_components_def)

lemma os_lstat_cong:
  "getcwd s' = getcwd s \<Longrightarrow> fs_map s' = fs_map s \<Longrightarrow> os_lstat s' p = os_lstat s p"
  by (simp add: os_lstat_def path_components_def)

lemma os_stat_cong:
  "getcwd s' = getcwd s \<Longrightarrow> fs_map s' = fs_map s \<Longrightarrow> os_stat s' p = os_stat s p"
  by (simp add: os_stat_def path_components_def)

lemma os_path_exists_cong:
  "getcwd s' = getcwd s \<Longrightarrow> fs_map s' = fs_map s \<Longrightarrow> os_path_exists s' p = os_path_exists s p"
  using os_stat_cong[of s' s p] by (simp add: os_path_exists_def)

lemma entry_place_cong:
  "getcwd s' = getcwd s \<Longrightarrow> fs_map s' = fs_map s \<Longrightarrow> entry_place s' p = entry_place s p"
  using os_lstat_cong[of s' s p] by (simp add: entry_place_def)

lemma lstat_direct_cong:
  "getcwd s' = getcwd s \<Longrightarrow> fs_map s' = fs_map s \<Longrightarrow> lstat_direct s' p = lstat_direct s p"
  by (simp add: lstat_direct_def path_components_def)

lemma os_lstat_missing_free: "os_lstat s p = Missing k \<Longrightarrow> fs_map s k = None"
  unfolding os_lstat_def by (rule walk_missing_free)

lemma os_remove_fields:
  assumes "os_remove s p = Inr s'"
  shows "getcwd s' = getcwd s" "symlink_calls s' = symlink_calls s" "stdout s' = stdout s"
    "\<exists>k e. os_lstat s p = Found k e \<and> e \<noteq> Dir \<and> fs_map s' = (fs_map s)(k := None)"
  using assms by (auto simp: os_remove_def split: resolved.splits fs_entry.splits)

lemma os_symlink_fields:
  assumes "os_symlink s target p = Inr s'"
  shows "getcwd s' = getcwd s" "symlink_calls s' = symlink_calls s @ [(target, p)]"
    "stdout s' = stdout s"
    "\<exists>k. os_lstat s p = Missing k \<and> fs_map s' = (fs_map s)(k \<mapsto> Link target)"
  using assms by (auto simp: os_symlink_def split: resolved.splits)

lemma os_mkdir_fields:
  assumes "os_mkdir s p = Inr s'"
  shows "getcwd s' = getcwd s" "symlink_calls s' = symlink_calls s" "stdout s' = stdout s"
    "\<exists>k. fs_map s k = None \<and> fs_map s' = (fs_map s)(k \<mapsto> Dir)"
proof -
  obtain k where k: "os_lstat s p = Missing k" "s' = s\<lparr>fs_map := (fs_map s)(k \<mapsto> Dir)\<rparr>"
    using assms by (auto simp: os_mkdir_def split: resolved.splits)
  show "getcwd s' = getcwd s" "symlink_calls s' = symlink_calls s" "stdout s' = stdout s"
    using k(2) by simp_all
  show "\<exists>k. fs_map s k = None \<and> fs_map s' = (fs_map s)(k \<mapsto> Dir)"
    using k os_lstat_missing_free[OF k(1)] by auto
qed

lemma mkdir_last_fields:
  "getcwd (snd (mkdir_last s name)) = getcwd s"
  "symlink_calls (snd (mkdir_last s name)) = symlink_calls s"
  "stdout (snd (mkdir_last s name)) = stdout s"
  "fs_map s k = Some e \<Longrightarrow> fs_map (snd (mkdir_last s name)) k = Some e"
proof -
  show "getcwd (snd (mkdir_last s name)) = getcwd s"
  proof (cases "os_mkdir s name")
    case (Inl err) then show ?thesis by (simp add: mkdir_last_def)
  next
    case (Inr s') then show ?thesis using os_mkdir_fields(1)[OF Inr] by (simp add: mkdir_last_def)
  qed
  show "symlink_calls (snd (mkdir_last s name)) = symlink_calls s"
  proof (cases "os_mkdir s name")
    case (Inl err) then show ?thesis by (simp add: mkdir_last_def)
  next
    case (Inr s') then show ?thesis using os_mkdir_fields(2)[OF Inr] by (simp add: mkdir_last_def)
  qed
  show "stdout (snd (mkdir_last s name)) = stdout s"
  proof (cases "os_mkdir s name")
    case (Inl err) then show ?thesis by (simp add: mkdir_last_def)
  next
    case (Inr s') then show ?thesis using os_mkdir_fields(3)[OF Inr] by (simp add: mkdir_last_def)
  qed
  show "fs_map (snd (mkdir_last s name)) k = Some e" if k: "fs_map s k = Some e"
  proof (cases "os_mkdir s name")
    case (Inl err) then show ?thesis using k by (simp add: mkdir_last_def)
  next
    case (Inr s')
    obtain k' where k': "fs_map s k' = None" "fs_map s' = (fs_map s)(k' \<mapsto> Dir)"
      using os_mkdir_fields(4)[OF Inr] by blast
    have "k' \<noteq> k" using k'(1) k by auto
    then show ?thesis using k'(2) Inr k by (simp add: mkdir_last_def)
  qed
qed

lemma os_makedirs_fields:
  "getcwd (snd (os_makedirs s name)) = getcwd s
   \<and> symlink_calls (snd (os_makedirs s name)) = symlink_calls s
   \<and> stdout (snd (os_makedirs s name)) = stdout s
   \<and> (fs_map s k = Some e \<longrightarrow> fs_map (snd (os_makedirs s name)) k = Some e)"
proof (induction s name rule: os_makedirs.induct)
  case (1 s name)
  show ?case
  proof (cases "fst (makedirs_split name) \<noteq> [] \<and> snd (makedirs_split name) \<noteq> []
         \<and> \<not> os_path_exists s (fst (makedirs_split name))")
    case False
    have "os_makedirs s name = mkdir_last s name"
      by (subst os_makedirs.simps) (rule if_not_P[OF False])
    then show ?thesis using mkdir_last_fields(1-3)[of s name] mkdir_last_fields(4)[where s=s and name=name and k=k and e=e] by simp
  next
    case True
    obtain r s1 where r: "os_makedirs s (fst (makedirs_split name)) = (r, s1)"
      by (cases "os_makedirs s (fst (makedirs_split name))")
    have ih: "getcwd s1 = getcwd s" "symlink_calls s1 = symlink_calls s" "stdout s1 = stdout s"
      "fs_map s k = Some e \<longrightarrow> fs_map s1 k = Some e"
      using "1.IH"[OF True] r by simp_all
    have eq: "os_makedirs s name =
      (case os_makedirs s (fst (makedirs_split name)) of
              (Inl e, s1) \<Rightarrow>
                if e \<noteq> FileExistsError then (Inl e, s1)
                else if snd (makedirs_split name) = ''.'' then (Inr (), s1)
                else mkdir_last s1 name
            | (Inr u, s1) \<Rightarrow>
                if snd (makedirs_split name) = ''.'' then (Inr (), s1)
                else mkdir_last s1 name)"
      by (subst os_makedirs.simps) (rule if_P[OF True])
    have "snd (os_makedirs s name) = s1 \<or> snd (os_makedirs s name) = snd (mkdir_last s1 name)"
      unfolding eq r by (cases r) simp_all
    then show ?thesis
      using ih mkdir_last_fields(1-3)[of s1 name] mkdir_last_fields(4)[where s=s1 and name=name and k=k and e=e] by auto
  qed
qed


lemma link_file_cases:
  fixes folder f s n
  defines "T \<equiv> abspath (getcwd s) f"
  defines "D \<equiv> path_join folder (basename (abspath (getcwd s) f))"
  obtains
    (skipped) "\<not> os_path_exists s T" "link_file folder f s n = (Inr n, s)"
  | (remove_failed) e where "os_path_exists s T" "link_file folder f s n = (Inl e, s)"
  | (symlink_failed) e s1 where "os_path_exists s T"
      "s1 = s \<or> os_remove s D = Inr s1" "link_file folder f s n = (Inl e, s1)"
  | (linked) s1 s2 where "os_path_exists s T"
      "(s1 = s \<and> \<not> (os_path_exists s D \<or> os_path_islink s D))
         \<or> (os_remove s D = Inr s1 \<and> (os_path_exists s D \<or> os_path_islink s D))"
      "os_symlink s1 T D = Inr s2" "link_file folder f s n = (Inr (n + 1), s2)"
proof (cases "os_path_exists s T")
  case False
  then have "link_file folder f s n = (Inr n, s)"
    by (simp add: link_file_def T_def Let_def)
  with False show ?thesis by (rule skipped)
next
  case True
  show ?thesis
  proof (cases "if os_path_exists s D \<or> os_path_islink s D then os_remove s D else Inr s")
    case (Inl e)
    then have "link_file folder f s n = (Inl e, s)"
      using True unfolding link_file_def T_def D_def Let_def by simp
    with True show ?thesis by (rule remove_failed)
  next
    case (Inr s1)
    have s1: "(s1 = s \<and> \<not> (os_path_exists s D \<or> os_path_islink s D))
         \<or> (os_remove s D = Inr s1 \<and> (os_path_exists s D \<or> os_path_islink s D))"
      using Inr by (auto split: if_splits)
    show ?thesis
    proof (cases "os_symlink s1 T D")
      case (Inl e)
      then have "link_file folder f s n = (Inl e, s1)"
        using True Inr unfolding link_file_def T_def D_def Let_def by simp
      moreover have "s1 = s \<or> os_remove s D = Inr s1" using s1 by blast
      ultimately show ?thesis using True symlink_failed by blast
    next
      case (Inr s2)
      then have "link_file folder f s n = (Inr (n + 1), s2)"
        using True \<open>(if os_path_exists s D \<or> os_path_islink s D then os_remove s D else Inr s) = Inr s1\<close>
        unfolding link_file_def T_def D_def Let_def by simp
      then show ?thesis using True s1 Inr linked by blast
    qed
  qed
qed

lemma link_file_skip:
  "\<not> os_path_exists s (abspath (getcwd s) f) \<Longrightarrow> link_file folder f s n = (Inr n, s)"
  by (simp add: link_file_def Let_def)

lemma link_file_getcwd: "getcwd (snd (link_file folder f s n)) = getcwd s"
proof (cases rule: link_file_cases[of s f folder n])
  case skipped then show ?thesis by simp
next
  case (remove_failed e) then show ?thesis by simp
next
  case (symlink_failed e s1)
  then show ?thesis using os_remove_fields(1) by auto
next
  case (linked s1 s2)
  have "getcwd s1 = getcwd s" using linked(2) os_remove_fields(1) by auto
  then show ?thesis using linked(4) os_symlink_fields(1)[OF linked(3)] by simp
qed

lemma link_file_stdout: "stdout (snd (link_file folder f s n)) = stdout s"
proof (cases rule: link_file_cases[of s f folder n])
  case skipped then show ?thesis by simp
next
  case (remove_failed e) then show ?thesis by simp
next
  case (symlink_failed e s1)
  then show ?thesis using os_remove_fields(3) by auto
next
  case (linked s1 s2)
  have "stdout s1 = stdout s" using linked(2) os_remove_fields(3) by auto
  then show ?thesis using linked(4) os_symlink_fields(3)[OF linked(3)] by simp
qed

lemma removal_then_missing:
  assumes rem: "os_remove s p = Inr s1" and mis: "os_lstat s1 p = Missing k1"
  shows "entry_place s p = Some k1"
proof -
  obtain k e where k: "os_lstat s p = Found k e" "e \<noteq> Dir" "fs_map s1 = (fs_map s)(k := None)"
    using os_remove_fields(4)[OF rem] by blast
  have g: "getcwd s1 = getcwd s" using os_remove_fields(1)[OF rem] .
  have l1: "os_lstat s1 p = walk_path 40 ((fs_map s)(k := None)) False [] (path_components s p)"
    by (simp add: os_lstat_def k(3) path_components_cong[OF g])
  have "os_lstat s1 p = os_lstat s p \<or> os_lstat s1 p = Missing k
          \<or> os_lstat s1 p = Failed FileNotFoundError"
    unfolding l1 using walk_after_removal[of 40 "fs_map s" k False "[]" "path_components s p"]
    by (simp add: os_lstat_def)
  then have "k1 = k" using mis k(1) by auto
  then show ?thesis using k(1) by (simp add: entry_place_def)
qed

lemma link_file_frame:
  assumes "entry_place s (path_join folder (basename (abspath (getcwd s) f))) \<noteq> Some k"
  shows "fs_map (snd (link_file folder f s n)) k = fs_map s k"
proof (cases rule: link_file_cases[of s f folder n])
  case skipped then show ?thesis by simp
next
  case (remove_failed e) then show ?thesis by simp
next
  case (symlink_failed e s1)
  show ?thesis
  proof (cases "s1 = s")
    case True then show ?thesis using symlink_failed(3) by simp
  next
    case False
    then have rem: "os_remove s (path_join folder (basename (abspath (getcwd s) f))) = Inr s1"
      using symlink_failed(2) by simp
    obtain k0 e0 where k0: "os_lstat s (path_join folder (basename (abspath (getcwd s) f))) = Found k0 e0"
        "fs_map s1 = (fs_map s)(k0 := None)"
      using os_remove_fields(4)[OF rem] by blast
    have "k0 \<noteq> k" using assms k0(1) by (auto simp: entry_place_def)
    then show ?thesis using symlink_failed(3) k0(2) by simp
  qed
next
  case (linked s1 s2)
  let ?D = "path_join folder (basename (abspath (getcwd s) f))"
  obtain k1 where k1: "os_lstat s1 ?D = Missing k1"
      "fs_map s2 = (fs_map s1)(k1 \<mapsto> Link (abspath (getcwd s) f))"
    using os_symlink_fields(4)[OF linked(3)] by blast
  show ?thesis
  proof (cases "s1 = s")
    case True
    then have "entry_place s ?D = Some k1" using k1(1) by (simp add: entry_place_def)
    then have "k1 \<noteq> k" using assms by auto
    then show ?thesis using linked(4) k1(2) True by simp
  next
    case False
    then have rem: "os_remove s ?D = Inr s1" using linked(2) by auto
    have "entry_place s ?D = Some k1" using removal_then_missing[OF rem k1(1)] .
    then have ne: "k1 \<noteq> k" using assms by auto
    obtain k0 e0 where k0: "os_lstat s ?D = Found k0 e0" "fs_map s1 = (fs_map s)(k0 := None)"
      using os_remove_fields(4)[OF rem] by blast
    have "k0 \<noteq> k" using assms k0(1) by (auto simp: entry_place_def)
    then show ?thesis using linked(4) k1(2) k0(2) ne by simp
  qed
qed

lemma link_file_count:
  assumes "link_file folder f s n = (Inr n', s')"
  shows "\<exists>new. symlink_calls s' = symlink_calls s @ new \<and> n' = n + int (length new)"
proof (cases rule: link_file_cases[of s f folder n])
  case skipped then show ?thesis using assms by simp
next
  case (remove_failed e) then show ?thesis using assms by simp
next
  case (symlink_failed e s1) then show ?thesis using assms by simp
next
  case (linked s1 s2)
  have "symlink_calls s1 = symlink_calls s" using linked(2) os_remove_fields(2) by auto
  then have "symlink_calls s2 = symlink_calls s
               @ [(abspath (getcwd s) f, path_join folder (basename (abspath (getcwd s) f)))]"
    using os_symlink_fields(2)[OF linked(3)] by simp
  then show ?thesis using linked(4) assms by auto
qed

lemma link_files_append:
  "link_files folder (xs @ ys) s n =
     (case link_files folder xs s n of
        (Inl e, s1) \<Rightarrow> (Inl e, s1)
      | (Inr n1, s1) \<Rightarrow> link_files folder ys s1 n1)"
  by (induction xs arbitrary: s n) (auto split: prod.splits sum.splits)

lemma link_files_getcwd: "getcwd (snd (link_files folder fl s n)) = getcwd s"
proof (induction fl arbitrary: s n)
  case Nil show ?case by simp
next
  case (Cons f fl)
  obtain r s1 where r: "link_file folder f s n = (r, s1)" by (cases "link_file folder f s n")
  have c: "getcwd s1 = getcwd s" using link_file_getcwd[of folder f s n] r by simp
  show ?case
  proof (cases r)
    case (Inl e) then show ?thesis using r c by simp
  next
    case (Inr n1) then show ?thesis using r c Cons.IH[of s1 n1] by simp
  qed
qed

lemma link_files_stdout: "stdout (snd (link_files folder fl s n)) = stdout s"
proof (induction fl arbitrary: s n)
  case Nil show ?case by simp
next
  case (Cons f fl)
  obtain r s1 where r: "link_file folder f s n = (r, s1)" by (cases "link_file folder f s n")
  have c: "stdout s1 = stdout s" using link_file_stdout[of folder f s n] r by simp
  show ?case
  proof (cases r)
    case (Inl e) then show ?thesis using r c by simp
  next
    case (Inr n1) then show ?thesis using r c Cons.IH[of s1 n1] by simp
  qed
qed

lemma link_files_count:
  "link_files folder fl s n = (Inr n', s')
     \<Longrightarrow> \<exists>new. symlink_calls s' = symlink_calls s @ new \<and> n' = n + int (length new)"
proof (induction fl arbitrary: s n)
  case Nil then show ?case by simp
next
  case (Cons f fl)
  obtain r s1 where r: "link_file folder f s n = (r, s1)" by (cases "link_file folder f s n")
  show ?case
  proof (cases r)
    case (Inl e) then show ?thesis using r Cons.prems by simp
  next
    case (Inr n1)
    obtain new1 where new1: "symlink_calls s1 = symlink_calls s @ new1" "n1 = n + int (length new1)"
      using link_file_count[of folder f s n n1 s1] r Inr by auto
    have "link_files folder fl s1 n1 = (Inr n', s')" using Cons.prems r Inr by simp
    then obtain new2 where new2: "symlink_calls s' = symlink_calls s1 @ new2" "n' = n1 + int (length new2)"
      using Cons.IH by blast
    have "symlink_calls s' = symlink_calls s @ (new1 @ new2) \<and> n' = n + int (length (new1 @ new2))"
      using new1 new2 by simp
    then show ?thesis by blast
  qed
qed

subsection \<open>The returned value, the printed count and missing sources\<close>

lemma populate_with_symlinks_phases:
  obtains
    (makedirs_failed) e s0 where
      "(if \<not> os_path_exists s (abspath (getcwd s) folder_path)
        then os_makedirs s (abspath (getcwd s) folder_path) else (Inr (), s)) = (Inl e, s0)"
      "populate_with_symlinks file_list folder_path s = (Inl e, s0)"
  | (loop_failed) s0 e s1 where
      "(if \<not> os_path_exists s (abspath (getcwd s) folder_path)
        then os_makedirs s (abspath (getcwd s) folder_path) else (Inr (), s)) = (Inr (), s0)"
      "link_files (abspath (getcwd s) folder_path) file_list s0 0 = (Inl e, s1)"
      "populate_with_symlinks file_list folder_path s = (Inl e, s1)"
  | (returned) s0 n s1 where
      "(if \<not> os_path_exists s (abspath (getcwd s) folder_path)
        then os_makedirs s (abspath (getcwd s) folder_path) else (Inr (), s)) = (Inr (), s0)"
      "link_files (abspath (getcwd s) folder_path) file_list s0 0 = (Inr n, s1)"
      "populate_with_symlinks file_list folder_path s
         = (Inr PyNone, s1\<lparr>stdout := stdout s1 @ [''Total symbolic links created: '' @ str_int n]\<rparr>)"
proof -
  let ?ph = "if \<not> os_path_exists s (abspath (getcwd s) folder_path)
        then os_makedirs s (abspath (getcwd s) folder_path) else (Inr (), s)"
  obtain r0 s0 where ph: "?ph = (r0, s0)" by (cases ?ph)
  show ?thesis
  proof (cases r0)
    case (Inl e)
    have "populate_with_symlinks file_list folder_path s = (Inl e, s0)"
      unfolding populate_with_symlinks_def Let_def ph Inl by simp
    then show ?thesis using makedirs_failed ph Inl by blast
  next
    case (Inr u)
    obtain r1 s1 where lf: "link_files (abspath (getcwd s) folder_path) file_list s0 0 = (r1, s1)"
      by (cases "link_files (abspath (getcwd s) folder_path) file_list s0 0")
    show ?thesis
    proof (cases r1)
      case (Inl e)
      have "populate_with_symlinks file_list folder_path s = (Inl e, s1)"
        unfolding populate_with_symlinks_def Let_def ph Inr by (simp add: lf Inl)
      then show ?thesis using loop_failed ph Inr lf Inl by auto
    next
      case (Inr n)
      have "populate_with_symlinks file_list folder_path s
         = (Inr PyNone, s1\<lparr>stdout := stdout s1 @ [''Total symbolic links created: '' @ str_int n]\<rparr>)"
        unfolding populate_with_symlinks_def Let_def ph \<open>r0 = Inr u\<close> by (simp add: lf Inr)
      then show ?thesis using returned ph \<open>r0 = Inr u\<close> lf Inr by auto
    qed
  qed
qed

lemma phase_one_fields:
  assumes "(if \<not> os_path_exists s p then os_makedirs s p else (Inr (), s)) = (r, s0)"
  shows "getcwd s0 = getcwd s" "symlink_calls s0 = symlink_calls s" "stdout s0 = stdout s"
    "fs_map s k = Some e \<Longrightarrow> fs_map s0 k = Some e"
proof -
  have "s0 = s \<or> s0 = snd (os_makedirs s p)" using assms by (auto split: if_splits)
  then show "getcwd s0 = getcwd s" "symlink_calls s0 = symlink_calls s" "stdout s0 = stdout s"
    "fs_map s k = Some e \<Longrightarrow> fs_map s0 k = Some e"
    using os_makedirs_fields[of s p k e] by auto
qed

text \<open>
  Claim C5, as the code has it. \<^verbatim>\<open>populate_with_symlinks\<close> has no \<^verbatim>\<open>return\<close> statement: it
  never returns an integer. When it returns, the value is \<^verbatim>\<open>None\<close> and the one line it
  has printed is \<^verbatim>\<open>Total symbolic links created: \<close> followed by the number of
  \<^verbatim>\<open>os.symlink\<close> calls that succeeded during the call.
\<close>

theorem populate_with_symlinks_prints_count:
  "(\<forall>n. fst (populate_with_symlinks file_list folder_path s) \<noteq> Inr (PyInt n))
   \<and> (fst (populate_with_symlinks file_list folder_path s) = Inr PyNone \<longrightarrow>
        (\<exists>new. symlink_calls (snd (populate_with_symlinks file_list folder_path s))
                  = symlink_calls s @ new
             \<and> stdout (snd (populate_with_symlinks file_list folder_path s))
                  = stdout s @ [''Total symbolic links created: '' @ str_int (int (length new))]))"
proof (cases rule: populate_with_symlinks_phases[of s folder_path file_list])
  case (makedirs_failed e s0)
  then show ?thesis by simp
next
  case (loop_failed s0 e s1)
  then show ?thesis by simp
next
  case (returned s0 n s1)
  obtain new where new: "symlink_calls s1 = symlink_calls s0 @ new" "n = 0 + int (length new)"
    using link_files_count[OF returned(2)] by blast
  have s0: "symlink_calls s0 = symlink_calls s" "stdout s0 = stdout s"
    using phase_one_fields(2,3)[OF returned(1)] by simp_all
  have so: "stdout s1 = stdout s0"
    using link_files_stdout[of "abspath (getcwd s) folder_path" file_list s0 0] returned(2) by simp
  have "symlink_calls (snd (populate_with_symlinks file_list folder_path s)) = symlink_calls s @ new
      \<and> stdout (snd (populate_with_symlinks file_list folder_path s))
                  = stdout s @ [''Total symbolic links created: '' @ str_int (int (length new))]"
    using returned(3) new s0 so by simp
  then show ?thesis using returned(3) by auto
qed


theorem populate_with_symlinks_prints_count_witness:
  "fst (populate_with_symlinks [''/new/a.jpg'', ''/missing/b.jpg''] ''/dest''
          \<lparr>getcwd = ''/home/u'',
           fs_map = [[''new''] \<mapsto> Dir, [''new'', ''a.jpg''] \<mapsto> File, [''dest''] \<mapsto> Dir],
           symlink_calls = [], stdout = []\<rparr>) = Inr PyNone
   \<and> stdout (snd (populate_with_symlinks [''/new/a.jpg'', ''/missing/b.jpg''] ''/dest''
          \<lparr>getcwd = ''/home/u'',
           fs_map = [[''new''] \<mapsto> Dir, [''new'', ''a.jpg''] \<mapsto> File, [''dest''] \<mapsto> Dir],
           symlink_calls = [], stdout = []\<rparr>)) = [''Total symbolic links created: 1'']"
proof -
  let ?s = "\<lparr>getcwd = ''/home/u'',
           fs_map = [[''new''] \<mapsto> Dir, [''new'', ''a.jpg''] \<mapsto> File, [''dest''] \<mapsto> Dir],
           symlink_calls = [], stdout = []\<rparr>"
  let ?r = "populate_with_symlinks [''/new/a.jpg'', ''/missing/b.jpg''] ''/dest'' ?s"
  have a: "fst ?r = Inr PyNone" by code_simp
  have c: "symlink_calls (snd ?r) = [(''/new/a.jpg'', ''/dest/a.jpg'')]" by code_simp
  obtain new where new: "symlink_calls (snd ?r) = symlink_calls ?s @ new"
     "stdout (snd ?r) = stdout ?s @ [''Total symbolic links created: '' @ str_int (int (length new))]"
    using populate_with_symlinks_prints_count[of "[''/new/a.jpg'', ''/missing/b.jpg'']" "''/dest''" ?s] a
    by blast
  have "new = [(''/new/a.jpg'', ''/dest/a.jpg'')]" using new(1) c by simp
  moreover have "str_int 1 = ''1''" by code_simp
  ultimately have "str_int (int (length new)) = ''1''" by simp
  then show ?thesis using a new(2) by simp
qed

text \<open>
  One link is created and the call returns \<^verbatim>\<open>None\<close>, not the count 1.
\<close>

theorem populate_with_symlinks_return_counterexample:
  "fst (populate_with_symlinks [''/new/a.jpg''] ''/dest''
          \<lparr>getcwd = ''/home/u'',
           fs_map = [[''new''] \<mapsto> Dir, [''new'', ''a.jpg''] \<mapsto> File, [''dest''] \<mapsto> Dir],
           symlink_calls = [], stdout = []\<rparr>) = Inr PyNone
   \<and> symlink_calls (snd (populate_with_symlinks [''/new/a.jpg''] ''/dest''
          \<lparr>getcwd = ''/home/u'',
           fs_map = [[''new''] \<mapsto> Dir, [''new'', ''a.jpg''] \<mapsto> File, [''dest''] \<mapsto> Dir],
           symlink_calls = [], stdout = []\<rparr>)) = [(''/new/a.jpg'', ''/dest/a.jpg'')]"
  by code_simp

lemma stdout_update_exists:
  "os_path_exists (s\<lparr>stdout := out\<rparr>) p = os_path_exists s p"
  by (rule os_path_exists_cong) simp_all

lemma stdout_update_entry_place:
  "entry_place (s\<lparr>stdout := out\<rparr>) p = entry_place s p"
  by (rule entry_place_cong) simp_all

lemma stdout_update_lstat_direct:
  "lstat_direct (s\<lparr>stdout := out\<rparr>) p = lstat_direct s p"
  by (rule lstat_direct_cong) simp_all

lemma populate_prefix_run:
  assumes "populate_with_symlinks pre folder_path s = (Inr v, s1)"
  obtains s0 n1 s1' where
    "(if \<not> os_path_exists s (abspath (getcwd s) folder_path)
        then os_makedirs s (abspath (getcwd s) folder_path) else (Inr (), s)) = (Inr (), s0)"
    "link_files (abspath (getcwd s) folder_path) pre s0 0 = (Inr n1, s1')"
    "s1 = s1'\<lparr>stdout := stdout s1' @ [''Total symbolic links created: '' @ str_int n1]\<rparr>"
    "getcwd s0 = getcwd s" "getcwd s1' = getcwd s"
proof (cases rule: populate_with_symlinks_phases[of s folder_path pre])
  case (makedirs_failed e s0) then show ?thesis using assms by simp
next
  case (loop_failed s0 e s1') then show ?thesis using assms by simp
next
  case (returned s0 n s1')
  have g0: "getcwd s0 = getcwd s" using phase_one_fields(1)[OF returned(1)] .
  have "getcwd s1' = getcwd s0"
    using link_files_getcwd[of "abspath (getcwd s) folder_path" pre s0 0] returned(2) by simp
  then show ?thesis using that[OF returned(1,2)] returned(3) assms g0 by simp
qed

lemma populate_from_loop:
  assumes "(if \<not> os_path_exists s (abspath (getcwd s) folder_path)
        then os_makedirs s (abspath (getcwd s) folder_path) else (Inr (), s)) = (Inr (), s0)"
  shows "populate_with_symlinks file_list folder_path s =
     (case link_files (abspath (getcwd s) folder_path) file_list s0 0 of
        (Inl e, s1) \<Rightarrow> (Inl e, s1)
      | (Inr links_created, s1) \<Rightarrow>
          (Inr PyNone,
           s1\<lparr>stdout := stdout s1 @ [''Total symbolic links created: '' @ str_int links_created]\<rparr>))"
  unfolding populate_with_symlinks_def Let_def assms by simp

text \<open>
  Claim C9, as the code has it. The loop tests each path when it reaches it, not at the
  start of the call. A file-list entry whose absolute path does not exist at that
  moment (that is, in the state the entries before it leave behind) is passed over:
  the loop body changes neither the file system nor the counter and raises nothing,
  and the whole call does exactly what it does on the list without that entry.
\<close>

theorem populate_with_symlinks_missing_source:
  assumes "populate_with_symlinks pre folder_path s = (Inr v, s1)"
      and "\<not> os_path_exists s1 (abspath (getcwd s) f)"
  shows "link_file (abspath (getcwd s) folder_path) f s1 n = (Inr n, s1)
       \<and> populate_with_symlinks (pre @ f # post) folder_path s
           = populate_with_symlinks (pre @ post) folder_path s"
proof -
  obtain s0 n1 s1' where run:
    "(if \<not> os_path_exists s (abspath (getcwd s) folder_path)
        then os_makedirs s (abspath (getcwd s) folder_path) else (Inr (), s)) = (Inr (), s0)"
    "link_files (abspath (getcwd s) folder_path) pre s0 0 = (Inr n1, s1')"
    "s1 = s1'\<lparr>stdout := stdout s1' @ [''Total symbolic links created: '' @ str_int n1]\<rparr>"
    "getcwd s0 = getcwd s" "getcwd s1' = getcwd s"
    using populate_prefix_run[OF assms(1)] by blast
  have g1: "getcwd s1 = getcwd s" using run(3,5) by simp
  have 1: "link_file (abspath (getcwd s) folder_path) f s1 n = (Inr n, s1)"
    using link_file_skip[of s1 f] assms(2) g1 by simp
  have "\<not> os_path_exists s1' (abspath (getcwd s1') f)"
    using assms(2) run(3,5) stdout_update_exists by simp
  then have step: "link_file (abspath (getcwd s) folder_path) f s1' n1 = (Inr n1, s1')"
    by (rule link_file_skip)
  have "link_files (abspath (getcwd s) folder_path) (pre @ f # post) s0 0
          = link_files (abspath (getcwd s) folder_path) (pre @ post) s0 0"
    by (simp add: link_files_append run(2) step)
  then have 2: "populate_with_symlinks (pre @ f # post) folder_path s
           = populate_with_symlinks (pre @ post) folder_path s"
    by (simp add: populate_from_loop[OF run(1)])
  show ?thesis using 1 2 by blast
qed

theorem populate_with_symlinks_missing_source_witness:
  "populate_with_symlinks ([''/new/a.jpg''] @ ''/missing/b.jpg'' # [''/new/c.jpg'']) ''/dest''
          \<lparr>getcwd = ''/home/u'',
           fs_map = [[''new''] \<mapsto> Dir, [''new'', ''a.jpg''] \<mapsto> File,
                     [''new'', ''c.jpg''] \<mapsto> File, [''dest''] \<mapsto> Dir],
           symlink_calls = [], stdout = []\<rparr>
     = populate_with_symlinks ([''/new/a.jpg''] @ [''/new/c.jpg'']) ''/dest''
          \<lparr>getcwd = ''/home/u'',
           fs_map = [[''new''] \<mapsto> Dir, [''new'', ''a.jpg''] \<mapsto> File,
                     [''new'', ''c.jpg''] \<mapsto> File, [''dest''] \<mapsto> Dir],
           symlink_calls = [], stdout = []\<rparr>
   \<and> fs_map (snd (populate_with_symlinks [''/new/a.jpg'', ''/missing/b.jpg'', ''/new/c.jpg''] ''/dest''
          \<lparr>getcwd = ''/home/u'',
           fs_map = [[''new''] \<mapsto> Dir, [''new'', ''a.jpg''] \<mapsto> File,
                     [''new'', ''c.jpg''] \<mapsto> File, [''dest''] \<mapsto> Dir],
           symlink_calls = [], stdout = []\<rparr>)) [''dest'', ''b.jpg''] = None
   \<and> stdout (snd (populate_with_symlinks [''/new/a.jpg'', ''/missing/b.jpg'', ''/new/c.jpg''] ''/dest''
          \<lparr>getcwd = ''/home/u'',
           fs_map = [[''new''] \<mapsto> Dir, [''new'', ''a.jpg''] \<mapsto> File,
                     [''new'', ''c.jpg''] \<mapsto> File, [''dest''] \<mapsto> Dir],
           symlink_calls = [], stdout = []\<rparr>)) = [''Total symbolic links created: 2'']"
proof -
  let ?s = "\<lparr>getcwd = ''/home/u'',
           fs_map = [[''new''] \<mapsto> Dir, [''new'', ''a.jpg''] \<mapsto> File,
                     [''new'', ''c.jpg''] \<mapsto> File, [''dest''] \<mapsto> Dir],
           symlink_calls = [], stdout = []\<rparr>"
  obtain v s1 where run: "populate_with_symlinks [''/new/a.jpg''] ''/dest'' ?s = (v, s1)"
    by (cases "populate_with_symlinks [''/new/a.jpg''] ''/dest'' ?s")
  have "fst (populate_with_symlinks [''/new/a.jpg''] ''/dest'' ?s) = Inr PyNone" by code_simp
  then have run': "populate_with_symlinks [''/new/a.jpg''] ''/dest'' ?s = (Inr PyNone, s1)"
    using run by simp
  have "\<not> os_path_exists (snd (populate_with_symlinks [''/new/a.jpg''] ''/dest'' ?s))
            (abspath (getcwd ?s) ''/missing/b.jpg'')"
    by code_simp
  then have miss: "\<not> os_path_exists s1 (abspath (getcwd ?s) ''/missing/b.jpg'')"
    using run by simp
  have a: "populate_with_symlinks ([''/new/a.jpg''] @ ''/missing/b.jpg'' # [''/new/c.jpg'']) ''/dest'' ?s
     = populate_with_symlinks ([''/new/a.jpg''] @ [''/new/c.jpg'']) ''/dest'' ?s"
    using populate_with_symlinks_missing_source[OF run' miss, of 0 "[''/new/c.jpg'']"] by blast
  have b: "fs_map (snd (populate_with_symlinks [''/new/a.jpg'', ''/missing/b.jpg'', ''/new/c.jpg''] ''/dest'' ?s))
             [''dest'', ''b.jpg''] = None"
    by code_simp
  have c: "stdout (snd (populate_with_symlinks [''/new/a.jpg'', ''/missing/b.jpg'', ''/new/c.jpg''] ''/dest'' ?s))
             = [''Total symbolic links created: 2'']"
    by code_simp
  show ?thesis using a b c by blast
qed

text \<open>
  A path that does not exist when the call starts can exist when the loop reaches it:
  here the first entry creates the link \<^verbatim>\<open>/dest/a.jpg\<close>, so the second entry, the path
  \<^verbatim>\<open>/dest/a.jpg\<close> itself, is found, its destination entry is replaced and it is counted.
\<close>

theorem populate_with_symlinks_late_source_counterexample:
  "\<not> os_path_exists
        \<lparr>getcwd = ''/home/u'',
         fs_map = [[''new''] \<mapsto> Dir, [''new'', ''a.jpg''] \<mapsto> File, [''dest''] \<mapsto> Dir],
         symlink_calls = [], stdout = []\<rparr> (abspath ''/home/u'' ''/dest/a.jpg'')
   \<and> stdout (snd (populate_with_symlinks [''/new/a.jpg'', ''/dest/a.jpg''] ''/dest''
        \<lparr>getcwd = ''/home/u'',
         fs_map = [[''new''] \<mapsto> Dir, [''new'', ''a.jpg''] \<mapsto> File, [''dest''] \<mapsto> Dir],
         symlink_calls = [], stdout = []\<rparr>)) = [''Total symbolic links created: 2'']
   \<and> symlink_calls (snd (populate_with_symlinks [''/new/a.jpg'', ''/dest/a.jpg''] ''/dest''
        \<lparr>getcwd = ''/home/u'',
         fs_map = [[''new''] \<mapsto> Dir, [''new'', ''a.jpg''] \<mapsto> File, [''dest''] \<mapsto> Dir],
         symlink_calls = [], stdout = []\<rparr>))
       = [(''/new/a.jpg'', ''/dest/a.jpg''), (''/dest/a.jpg'', ''/dest/a.jpg'')]
   \<and> fs_map (snd (populate_with_symlinks [''/new/a.jpg'', ''/dest/a.jpg''] ''/dest''
        \<lparr>getcwd = ''/home/u'',
         fs_map = [[''new''] \<mapsto> Dir, [''new'', ''a.jpg''] \<mapsto> File, [''dest''] \<mapsto> Dir],
         symlink_calls = [], stdout = []\<rparr>)) [''dest'', ''a.jpg''] = Some (Link ''/dest/a.jpg'')"
  by code_simp

subsection \<open>Which entries a call can change\<close>

lemma split_sep_no_sep: "CHR ''/'' \<notin> set b \<Longrightarrow> split_sep b = [b]"
  by (induction b) auto

lemma split_sep_nonempty: "split_sep p \<noteq> []"
  by (induction p) (auto split: list.splits)

lemma last_split_sep_append:
  "CHR ''/'' \<notin> set b \<Longrightarrow> last (split_sep (x @ CHR ''/'' # b)) = b"
proof (induction x)
  case Nil
  then show ?case by (simp add: split_sep_no_sep)
next
  case (Cons c x)
  have ne: "split_sep (x @ CHR ''/'' # b) \<noteq> []" by (rule split_sep_nonempty)
  then obtain w ws where w: "split_sep (x @ CHR ''/'' # b) = w # ws"
    by (cases "split_sep (x @ CHR ''/'' # b)") auto
  show ?case
  proof (cases "c = CHR ''/''")
    case True
    then show ?thesis using Cons ne by simp
  next
    case False
    then have "split_sep ((c # x) @ CHR ''/'' # b) = (c # w) # ws" using w by simp
    moreover have "ws \<noteq> []"
    proof
      assume "ws = []"
      then have "split_sep (x @ CHR ''/'' # b) = [w]" using w by simp
      then have "length (split_sep (x @ CHR ''/'' # b)) = 1" by simp
      moreover have "\<And>y. length (split_sep (y @ CHR ''/'' # b)) \<ge> 2"
      proof -
        fix y show "length (split_sep (y @ CHR ''/'' # b)) \<ge> 2"
        proof (induction y)
          case Nil
          have "split_sep b \<noteq> []" by (rule split_sep_nonempty)
          then show ?case by (cases "split_sep b") auto
        next
          case (Cons a y)
          then show ?case by (auto split: list.splits)
        qed
      qed
      ultimately show False by (metis numeral_le_one_iff semiring_norm(69))
    qed
    ultimately show ?thesis using Cons w by simp
  qed
qed

lemma basename_no_sep: "CHR ''/'' \<notin> set (basename p)"
proof -
  have "\<And>xs. CHR ''/'' \<notin> set (takeWhile (\<lambda>c. c \<noteq> CHR ''/'') xs)"
    by (metis (mono_tags, lifting) set_takeWhileD)
  then show ?thesis by (simp add: basename_def path_split_def Let_def)
qed

lemma path_join_ends:
  assumes "p = b \<or> (\<exists>x. p = x @ CHR ''/'' # b)" "CHR ''/'' \<notin> set b"
  shows "path_join a p = b \<or> (\<exists>x. path_join a p = x @ CHR ''/'' # b)"
proof (cases "startswith_sep p")
  case True
  then show ?thesis using assms(1) by (simp add: path_join_def)
next
  case False
  show ?thesis
  proof (cases "a = []")
    case True
    then show ?thesis using assms(1) False by (simp add: path_join_def)
  next
    case False
    note ane = False
    show ?thesis
    proof (cases "last a = CHR ''/''")
      case True
      then have a: "a = butlast a @ [CHR ''/'']" using ane by (metis append_butlast_last_id)
      have pj: "path_join a p = a @ p" using True \<open>\<not> startswith_sep p\<close> by (simp add: path_join_def)
      from assms(1) show ?thesis
      proof
        assume "p = b"
        then have "path_join a p = butlast a @ CHR ''/'' # b" using pj a by (metis append.assoc append_Cons append_Nil)
        then show ?thesis by blast
      next
        assume "\<exists>x. p = x @ CHR ''/'' # b"
        then obtain x where "p = x @ CHR ''/'' # b" by blast
        then have "path_join a p = (a @ x) @ CHR ''/'' # b" using pj by simp
        then show ?thesis by blast
      qed
    next
      case False
      have pj: "path_join a p = a @ CHR ''/'' # p"
        using False ane \<open>\<not> startswith_sep p\<close> by (simp add: path_join_def)
      from assms(1) show ?thesis
      proof
        assume "p = b"
        then show ?thesis using pj by blast
      next
        assume "\<exists>x. p = x @ CHR ''/'' # b"
        then obtain x where "p = x @ CHR ''/'' # b" by blast
        then have "path_join a p = (a @ CHR ''/'' # x) @ CHR ''/'' # b" using pj by simp
        then show ?thesis by blast
      qed
    qed
  qed
qed

lemma destination_components_last:
  "last (path_components s (path_join folder (basename t))) = basename t"
proof -
  let ?b = "basename t"
  have nb: "CHR ''/'' \<notin> set ?b" by (rule basename_no_sep)
  have 1: "path_join folder ?b = ?b \<or> (\<exists>x. path_join folder ?b = x @ CHR ''/'' # ?b)"
    by (rule path_join_ends[OF _ nb]) simp
  have 2: "path_join (getcwd s) (path_join folder ?b) = ?b
         \<or> (\<exists>x. path_join (getcwd s) (path_join folder ?b) = x @ CHR ''/'' # ?b)"
    by (rule path_join_ends[OF 1 nb])
  have "\<And>p. p = ?b \<or> (\<exists>x. p = x @ CHR ''/'' # ?b) \<Longrightarrow> last (split_sep p) = ?b"
    using nb by (auto simp: split_sep_no_sep last_split_sep_append)
  then show ?thesis using 1 2 by (simp add: path_components_def)
qed


lemma link_file_directory_unchanged:
  assumes "os_lstat s (path_join folder (basename (abspath (getcwd s) f))) = Found k Dir"
  shows "snd (link_file folder f s n) = s"
proof (cases rule: link_file_cases[of s f folder n])
  case skipped then show ?thesis by simp
next
  case (remove_failed e) then show ?thesis by simp
next
  case (symlink_failed e s1)
  have "s1 = s" using symlink_failed(2) os_remove_fields(4) assms by fastforce
  then show ?thesis using symlink_failed(3) by simp
next
  case (linked s1 s2)
  have "s1 = s" using linked(2) os_remove_fields(4) assms by fastforce
  then show ?thesis using os_symlink_fields(4)[OF linked(3)] assms by auto
qed

lemma link_file_changed:
  assumes "fs_map (snd (link_file folder f s n)) k \<noteq> fs_map s k"
  shows "os_path_exists s (abspath (getcwd s) f)
       \<and> entry_place s (path_join folder (basename (abspath (getcwd s) f))) = Some k
       \<and> k \<noteq> [] \<and> last k = basename (abspath (getcwd s) f)"
proof -
  let ?D = "path_join folder (basename (abspath (getcwd s) f))"
  have ex: "os_path_exists s (abspath (getcwd s) f)"
  proof (rule ccontr)
    assume "\<not> os_path_exists s (abspath (getcwd s) f)"
    then have "link_file folder f s n = (Inr n, s)" by (rule link_file_skip)
    then show False using assms by simp
  qed
  have ep: "entry_place s ?D = Some k"
  proof (rule ccontr)
    assume "entry_place s ?D \<noteq> Some k"
    then have "fs_map (snd (link_file folder f s n)) k = fs_map s k" by (rule link_file_frame)
    then show False using assms by simp
  qed
  have nd: "os_lstat s ?D \<noteq> Found k Dir"
  proof
    assume "os_lstat s ?D = Found k Dir"
    then have "snd (link_file folder f s n) = s" by (rule link_file_directory_unchanged)
    then show False using assms by simp
  qed
  have "os_lstat s ?D = Missing k \<or> (\<exists>e. os_lstat s ?D = Found k e \<and> e \<noteq> Dir)"
    using ep nd by (auto simp: entry_place_def split: resolved.splits)
  then obtain e where "os_lstat s ?D = Missing k \<or> (os_lstat s ?D = Found k e \<and> e \<noteq> Dir)"
    by blast
  then have "k \<noteq> [] \<and> last k = last (path_components s ?D)"
    using walk_last_name[of 40 "fs_map s" "[]" "path_components s ?D" "os_lstat s ?D" k e]
    by (simp add: os_lstat_def)
  then show ?thesis using ex ep by (simp add: destination_components_last)
qed

lemma link_files_changed:
  assumes "fs_map (snd (link_files folder fl s n)) k \<noteq> fs_map s k"
  shows "\<exists>i < length fl. \<exists>n1 s1.
           link_files folder (take i fl) s n = (Inr n1, s1)
         \<and> os_path_exists s1 (abspath (getcwd s) (fl ! i))
         \<and> entry_place s1 (path_join folder (basename (abspath (getcwd s) (fl ! i)))) = Some k
         \<and> k \<noteq> [] \<and> last k = basename (abspath (getcwd s) (fl ! i))"
  using assms
proof (induction fl arbitrary: s n)
  case Nil then show ?case by simp
next
  case (Cons f fl)
  obtain r s1 where r: "link_file folder f s n = (r, s1)" by (cases "link_file folder f s n")
  have g: "getcwd s1 = getcwd s" using link_file_getcwd[of folder f s n] r by simp
  show ?case
  proof (cases "fs_map s1 k = fs_map s k")
    case False
    have ch: "os_path_exists s (abspath (getcwd s) f)
       \<and> entry_place s (path_join folder (basename (abspath (getcwd s) f))) = Some k
       \<and> k \<noteq> [] \<and> last k = basename (abspath (getcwd s) f)"
      using link_file_changed[of folder f s n k] r False by simp
    have "link_files folder (take 0 (f # fl)) s n = (Inr n, s)
         \<and> os_path_exists s (abspath (getcwd s) ((f # fl) ! 0))
         \<and> entry_place s (path_join folder (basename (abspath (getcwd s) ((f # fl) ! 0)))) = Some k
         \<and> k \<noteq> [] \<and> last k = basename (abspath (getcwd s) ((f # fl) ! 0))"
      using ch by simp
    then show ?thesis by blast
  next
    case True
    show ?thesis
    proof (cases r)
      case (Inl e)
      then have "snd (link_files folder (f # fl) s n) = s1" using r by simp
      then show ?thesis using Cons.prems True by simp
    next
      case (Inr n1)
      have eq: "\<And>xs. link_files folder (f # xs) s n = link_files folder xs s1 n1"
        using r Inr by simp
      have "fs_map (snd (link_files folder fl s1 n1)) k \<noteq> fs_map s1 k"
        using Cons.prems True eq by simp
      then obtain i n2 s2 where i: "i < length fl"
          "link_files folder (take i fl) s1 n1 = (Inr n2, s2)"
          "os_path_exists s2 (abspath (getcwd s1) (fl ! i))"
          "entry_place s2 (path_join folder (basename (abspath (getcwd s1) (fl ! i)))) = Some k"
          "k \<noteq> []" "last k = basename (abspath (getcwd s1) (fl ! i))"
        using Cons.IH[of s1 n1] by blast
      have "Suc i < length (f # fl)
         \<and> link_files folder (take (Suc i) (f # fl)) s n = (Inr n2, s2)
         \<and> os_path_exists s2 (abspath (getcwd s) ((f # fl) ! Suc i))
         \<and> entry_place s2 (path_join folder (basename (abspath (getcwd s) ((f # fl) ! Suc i)))) = Some k
         \<and> k \<noteq> [] \<and> last k = basename (abspath (getcwd s) ((f # fl) ! Suc i))"
        using i g eq by simp
      then show ?thesis by blast
    qed
  qed
qed

text \<open>
  Claim C10. An entry that is present before the call and is not the same afterwards
  (removed or replaced, whether the call returns or raises) is the destination entry of
  some file of the list: it is the entry that this file's destination path, the
  destination folder joined with the base name of the file's absolute path, leads to
  when the loop reaches the file, directories reached through symbolic links included;
  its name is that base name; and the file existed at that moment, that is, in the
  state left by the call on the files before it. Every other entry that was present is
  still there unchanged.
\<close>

theorem populate_with_symlinks_frame:
  assumes "fs_map s k = Some e"
      and "fs_map (snd (populate_with_symlinks file_list folder_path s)) k \<noteq> Some e"
  shows "\<exists>i < length file_list. \<exists>v s1.
           populate_with_symlinks (take i file_list) folder_path s = (Inr v, s1)
         \<and> os_path_exists s1 (abspath (getcwd s) (file_list ! i))
         \<and> entry_place s1 (destination_of folder_path (file_list ! i) s) = Some k
         \<and> last k = basename (abspath (getcwd s) (file_list ! i))"
proof -
  let ?fa = "abspath (getcwd s) folder_path"
  have main: "\<exists>i < length file_list. \<exists>v s1.
           populate_with_symlinks (take i file_list) folder_path s = (Inr v, s1)
         \<and> os_path_exists s1 (abspath (getcwd s) (file_list ! i))
         \<and> entry_place s1 (destination_of folder_path (file_list ! i) s) = Some k
         \<and> last k = basename (abspath (getcwd s) (file_list ! i))"
    if ph: "(if \<not> os_path_exists s ?fa then os_makedirs s ?fa else (Inr (), s)) = (Inr (), s0)"
      and ch: "fs_map (snd (link_files ?fa file_list s0 0)) k \<noteq> Some e"
    for s0
  proof -
    have g0: "getcwd s0 = getcwd s" using phase_one_fields(1)[OF ph] .
    have k0: "fs_map s0 k = Some e" using phase_one_fields(4)[OF ph assms(1)] .
    then have "fs_map (snd (link_files ?fa file_list s0 0)) k \<noteq> fs_map s0 k" using ch by simp
    then obtain i n1 s1 where i: "i < length file_list"
        "link_files ?fa (take i file_list) s0 0 = (Inr n1, s1)"
        "os_path_exists s1 (abspath (getcwd s0) (file_list ! i))"
        "entry_place s1 (path_join ?fa (basename (abspath (getcwd s0) (file_list ! i)))) = Some k"
        "last k = basename (abspath (getcwd s0) (file_list ! i))"
      using link_files_changed[of ?fa file_list s0 0 k] by blast
    let ?s1 = "s1\<lparr>stdout := stdout s1 @ [''Total symbolic links created: '' @ str_int n1]\<rparr>"
    have run: "populate_with_symlinks (take i file_list) folder_path s = (Inr PyNone, ?s1)"
      by (simp add: populate_from_loop[OF ph] i(2))
    have ex: "os_path_exists ?s1 (abspath (getcwd s) (file_list ! i))"
      using i(3) g0 by (simp add: stdout_update_exists)
    have kk: "entry_place ?s1 (destination_of folder_path (file_list ! i) s) = Some k"
      using i(4) g0 by (simp add: destination_of_def stdout_update_entry_place)
    have ln: "last k = basename (abspath (getcwd s) (file_list ! i))" using i(5) g0 by simp
    show ?thesis using i(1) run ex kk ln by blast
  qed
  show ?thesis
  proof (cases rule: populate_with_symlinks_phases[of s folder_path file_list])
    case (makedirs_failed err s0)
    have "fs_map s0 k = Some e" using phase_one_fields(4)[OF makedirs_failed(1) assms(1)] .
    then show ?thesis using assms(2) makedirs_failed(2) by simp
  next
    case (loop_failed s0 err s1)
    have "fs_map (snd (link_files ?fa file_list s0 0)) k \<noteq> Some e"
      using assms(2) loop_failed(2,3) by simp
    then show ?thesis using main[OF loop_failed(1)] by blast
  next
    case (returned s0 n s1)
    have "fs_map (snd (link_files ?fa file_list s0 0)) k \<noteq> Some e"
      using assms(2) returned(2,3) by simp
    then show ?thesis using main[OF returned(1)] by blast
  qed
qed


theorem populate_with_symlinks_frame_witness:
  "fs_map \<lparr>getcwd = ''/home/u'',
           fs_map = [[''new''] \<mapsto> Dir, [''new'', ''a.jpg''] \<mapsto> File, [''dest''] \<mapsto> Dir,
                     [''dest'', ''a.jpg''] \<mapsto> File, [''dest'', ''keep.txt''] \<mapsto> File,
                     [''destlink''] \<mapsto> Link ''/dest''],
           symlink_calls = [], stdout = []\<rparr> [''dest'', ''a.jpg''] = Some File
   \<and> fs_map (snd (populate_with_symlinks [''/new/a.jpg''] ''/destlink''
          \<lparr>getcwd = ''/home/u'',
           fs_map = [[''new''] \<mapsto> Dir, [''new'', ''a.jpg''] \<mapsto> File, [''dest''] \<mapsto> Dir,
                     [''dest'', ''a.jpg''] \<mapsto> File, [''dest'', ''keep.txt''] \<mapsto> File,
                     [''destlink''] \<mapsto> Link ''/dest''],
           symlink_calls = [], stdout = []\<rparr>)) [''dest'', ''a.jpg''] = Some (Link ''/new/a.jpg'')
   \<and> (\<exists>i < length [''/new/a.jpg'']. \<exists>v s1.
          populate_with_symlinks (take i [''/new/a.jpg'']) ''/destlink''
            \<lparr>getcwd = ''/home/u'',
           fs_map = [[''new''] \<mapsto> Dir, [''new'', ''a.jpg''] \<mapsto> File, [''dest''] \<mapsto> Dir,
                     [''dest'', ''a.jpg''] \<mapsto> File, [''dest'', ''keep.txt''] \<mapsto> File,
                     [''destlink''] \<mapsto> Link ''/dest''],
           symlink_calls = [], stdout = []\<rparr> = (Inr v, s1)
        \<and> os_path_exists s1 (abspath ''/home/u'' ([''/new/a.jpg''] ! i))
        \<and> entry_place s1 (destination_of ''/destlink'' ([''/new/a.jpg''] ! i)
              \<lparr>getcwd = ''/home/u'',
           fs_map = [[''new''] \<mapsto> Dir, [''new'', ''a.jpg''] \<mapsto> File, [''dest''] \<mapsto> Dir,
                     [''dest'', ''a.jpg''] \<mapsto> File, [''dest'', ''keep.txt''] \<mapsto> File,
                     [''destlink''] \<mapsto> Link ''/dest''],
           symlink_calls = [], stdout = []\<rparr>) = Some [''dest'', ''a.jpg'']
        \<and> last [''dest'', ''a.jpg''] = basename (abspath ''/home/u'' ([''/new/a.jpg''] ! i)))
   \<and> fs_map (snd (populate_with_symlinks [''/new/a.jpg''] ''/destlink''
          \<lparr>getcwd = ''/home/u'',
           fs_map = [[''new''] \<mapsto> Dir, [''new'', ''a.jpg''] \<mapsto> File, [''dest''] \<mapsto> Dir,
                     [''dest'', ''a.jpg''] \<mapsto> File, [''dest'', ''keep.txt''] \<mapsto> File,
                     [''destlink''] \<mapsto> Link ''/dest''],
           symlink_calls = [], stdout = []\<rparr>)) [''dest'', ''keep.txt''] = Some File"
proof -
  let ?s = "\<lparr>getcwd = ''/home/u'',
           fs_map = [[''new''] \<mapsto> Dir, [''new'', ''a.jpg''] \<mapsto> File, [''dest''] \<mapsto> Dir,
                     [''dest'', ''a.jpg''] \<mapsto> File, [''dest'', ''keep.txt''] \<mapsto> File,
                     [''destlink''] \<mapsto> Link ''/dest''],
           symlink_calls = [], stdout = []\<rparr>"
  have h1: "fs_map ?s [''dest'', ''a.jpg''] = Some File" by simp
  have a: "fs_map (snd (populate_with_symlinks [''/new/a.jpg''] ''/destlink'' ?s)) [''dest'', ''a.jpg'']
              = Some (Link ''/new/a.jpg'')"
    by code_simp
  then have h2: "fs_map (snd (populate_with_symlinks [''/new/a.jpg''] ''/destlink'' ?s))
                   [''dest'', ''a.jpg''] \<noteq> Some File"
    by simp
  have c: "\<exists>i < length [''/new/a.jpg'']. \<exists>v s1.
          populate_with_symlinks (take i [''/new/a.jpg'']) ''/destlink'' ?s = (Inr v, s1)
        \<and> os_path_exists s1 (abspath ''/home/u'' ([''/new/a.jpg''] ! i))
        \<and> entry_place s1 (destination_of ''/destlink'' ([''/new/a.jpg''] ! i) ?s)
              = Some [''dest'', ''a.jpg'']
        \<and> last [''dest'', ''a.jpg''] = basename (abspath ''/home/u'' ([''/new/a.jpg''] ! i))"
    using populate_with_symlinks_frame[OF h1 h2] by simp
  have k1: "fs_map ?s [''dest'', ''keep.txt''] = Some File" by simp
  have d: "fs_map (snd (populate_with_symlinks [''/new/a.jpg''] ''/destlink'' ?s)) [''dest'', ''keep.txt'']
             = Some File"
  proof (rule ccontr)
    assume k2: "fs_map (snd (populate_with_symlinks [''/new/a.jpg''] ''/destlink'' ?s))
                  [''dest'', ''keep.txt''] \<noteq> Some File"
    have "\<exists>i < length [''/new/a.jpg''].
            last [''dest'', ''keep.txt''] = basename (abspath (getcwd ?s) ([''/new/a.jpg''] ! i))"
      using populate_with_symlinks_frame[OF k1 k2] by blast
    then have "last [''dest'', ''keep.txt''] = basename (abspath (getcwd ?s) ''/new/a.jpg'')"
      by simp
    moreover have "basename (abspath (getcwd ?s) ''/new/a.jpg'') = ''a.jpg''"
      by code_simp
    ultimately show False by simp
  qed
  show ?thesis using h1 a c d by blast
qed

subsection \<open>Replacing an existing destination entry\<close>

lemma populate_final_fs_map:
  assumes "(if \<not> os_path_exists s (abspath (getcwd s) folder_path)
        then os_makedirs s (abspath (getcwd s) folder_path) else (Inr (), s)) = (Inr (), s0)"
  shows "fs_map (snd (populate_with_symlinks file_list folder_path s))
           = fs_map (snd (link_files (abspath (getcwd s) folder_path) file_list s0 0))"
proof -
  obtain r s1 where r: "link_files (abspath (getcwd s) folder_path) file_list s0 0 = (r, s1)"
    by (cases "link_files (abspath (getcwd s) folder_path) file_list s0 0")
  show ?thesis
    unfolding populate_from_loop[OF assms] r by (cases r) simp_all
qed

lemma lstat_direct_found:
  assumes "lstat_direct s p = Found k e"
  shows "os_lstat s p = Found k e"
  using walk_direct_more_fuel[of "fs_map s" False "[]" "path_components s p" "Found k e" 40] assms
  by (simp add: lstat_direct_def os_lstat_def)

lemma link_file_replaces:
  fixes folder f s n
  defines "T \<equiv> abspath (getcwd s) f"
  defines "D \<equiv> path_join folder (basename (abspath (getcwd s) f))"
  assumes ex: "os_path_exists s T"
      and entry: "lstat_direct s D = Found k File \<or> (\<exists>t. lstat_direct s D = Found k (Link t))"
  shows "\<exists>s2. link_file folder f s n = (Inr (n + 1), s2)
             \<and> fs_map s2 k = Some (Link T)"
proof -
  obtain e where e: "lstat_direct s D = Found k e" "e \<noteq> Dir" "e = File \<or> (\<exists>t. e = Link t)"
    using entry by auto
  have ls: "os_lstat s D = Found k e" using lstat_direct_found[OF e(1)] .
  have cond: "os_path_exists s D \<or> os_path_islink s D"
  proof (cases "e = File")
    case True
    then have "os_stat s D = Found k File"
      using walk_file_follow[of 40 "fs_map s" "[]" "path_components s D" k] ls
      by (simp add: os_lstat_def os_stat_def)
    then show ?thesis by (simp add: os_path_exists_def)
  next
    case False
    then obtain t where "e = Link t" using e(3) by blast
    then show ?thesis using ls by (simp add: os_path_islink_def)
  qed
  define sr where "sr = s\<lparr>fs_map := (fs_map s)(k := None)\<rparr>"
  have rem: "os_remove s D = Inr sr"
    using ls e(3) by (auto simp: os_remove_def sr_def)
  have "walk_path 0 ((fs_map s)(k := None)) False [] (path_components s D) = Missing k"
    using walk_direct_removal[of "fs_map s" "[]" "path_components s D" k e] e(1,2)
    by (simp add: lstat_direct_def)
  then have "walk_path 40 ((fs_map s)(k := None)) False [] (path_components s D) = Missing k"
    using walk_direct_more_fuel[of "(fs_map s)(k := None)" False "[]" "path_components s D" "Missing k" 40]
    by simp
  moreover have "path_components sr D = path_components s D"
    by (simp add: path_components_def sr_def)
  moreover have "fs_map sr = (fs_map s)(k := None)" by (simp add: sr_def)
  ultimately have gone: "os_lstat sr D = Missing k"
    by (simp only: os_lstat_def)
  define s2 where "s2 = sr\<lparr>fs_map := (fs_map sr)(k \<mapsto> Link T),
                       symlink_calls := symlink_calls sr @ [(T, D)]\<rparr>"
  have sym: "os_symlink sr T D = Inr s2" using gone by (simp add: os_symlink_def s2_def)
  have "link_file folder f s n = (Inr (n + 1), s2)"
    using ex cond rem sym unfolding link_file_def T_def D_def Let_def by simp
  moreover have "fs_map s2 k = Some (Link T)" by (simp add: s2_def)
  ultimately show ?thesis by blast
qed

text \<open>
  Claim C8, as the code has it. Take a file of the list whose absolute path exists when
  the loop reaches it (the files before it having been processed without an exception),
  and let its destination path lead, through directories that are not symbolic links,
  to an entry already there: a regular file or a symbolic link, valid or broken. The
  loop removes that entry and creates a symbolic link to the file's absolute path in
  its place. After the call the entry is that link provided no later file of the list
  that exists at its own turn has the same destination entry; two sources with one
  base name are not told apart, and the later one wins.
\<close>

theorem populate_with_symlinks_replaces_entry:
  assumes pre: "populate_with_symlinks pre folder_path s = (Inr v, s1)"
      and ex: "os_path_exists s1 (abspath (getcwd s) f)"
      and entry: "lstat_direct s1 (destination_of folder_path f s) = Found k File
                \<or> (\<exists>t. lstat_direct s1 (destination_of folder_path f s) = Found k (Link t))"
      and last: "\<forall>j < length post. \<forall>v' s2.
                   populate_with_symlinks (pre @ f # take j post) folder_path s = (Inr v', s2)
                 \<and> os_path_exists s2 (abspath (getcwd s) (post ! j))
                 \<longrightarrow> entry_place s2 (destination_of folder_path (post ! j) s) \<noteq> Some k"
  shows "fs_map (snd (populate_with_symlinks (pre @ f # post) folder_path s)) k
         = Some (Link (abspath (getcwd s) f))"
proof -
  let ?fa = "abspath (getcwd s) folder_path"
  let ?D = "destination_of folder_path f s"
  obtain s0 n1 s1' where run:
    "(if \<not> os_path_exists s ?fa then os_makedirs s ?fa else (Inr (), s)) = (Inr (), s0)"
    "link_files ?fa pre s0 0 = (Inr n1, s1')"
    "s1 = s1'\<lparr>stdout := stdout s1' @ [''Total symbolic links created: '' @ str_int n1]\<rparr>"
    "getcwd s0 = getcwd s" "getcwd s1' = getcwd s"
    using populate_prefix_run[OF pre] by blast
  have D: "?D = path_join ?fa (basename (abspath (getcwd s1') f))"
    by (simp add: destination_of_def run(5))
  have ex': "os_path_exists s1' (abspath (getcwd s1') f)"
    using ex run(3) by (simp add: run(5) stdout_update_exists)
  have entry': "lstat_direct s1' (path_join ?fa (basename (abspath (getcwd s1') f))) = Found k File
      \<or> (\<exists>t. lstat_direct s1' (path_join ?fa (basename (abspath (getcwd s1') f))) = Found k (Link t))"
    using entry run(3) D by (simp add: stdout_update_lstat_direct)
  obtain s2 where step: "link_file ?fa f s1' n1 = (Inr (n1 + 1), s2)"
      and linked: "fs_map s2 k = Some (Link (abspath (getcwd s1') f))"
    using link_file_replaces[OF ex' entry', of n1] by blast
  have linked': "fs_map s2 k = Some (Link (abspath (getcwd s) f))"
    using linked by (simp add: run(5))
  have g2: "getcwd s2 = getcwd s"
    using link_file_getcwd[of ?fa f s1' n1] step run(5) by simp
  have loop: "\<And>xs. link_files ?fa (pre @ f # xs) s0 0 = link_files ?fa xs s2 (n1 + 1)"
    by (simp add: link_files_append run(2) step)
  have keep: "fs_map (snd (link_files ?fa post s2 (n1 + 1))) k = fs_map s2 k"
  proof (rule ccontr)
    assume "fs_map (snd (link_files ?fa post s2 (n1 + 1))) k \<noteq> fs_map s2 k"
    then obtain j n3 s3 where j: "j < length post"
        "link_files ?fa (take j post) s2 (n1 + 1) = (Inr n3, s3)"
        "os_path_exists s3 (abspath (getcwd s2) (post ! j))"
        "entry_place s3 (path_join ?fa (basename (abspath (getcwd s2) (post ! j)))) = Some k"
      using link_files_changed[of ?fa post s2 "n1 + 1" k] by blast
    let ?s3 = "s3\<lparr>stdout := stdout s3 @ [''Total symbolic links created: '' @ str_int n3]\<rparr>"
    have "populate_with_symlinks (pre @ f # take j post) folder_path s = (Inr PyNone, ?s3)"
      by (simp add: populate_from_loop[OF run(1)] loop j(2))
    moreover have "os_path_exists ?s3 (abspath (getcwd s) (post ! j))"
      using j(3) g2 by (simp add: stdout_update_exists)
    ultimately have "entry_place ?s3 (destination_of folder_path (post ! j) s) \<noteq> Some k"
      using last j(1) by blast
    moreover have "entry_place ?s3 (destination_of folder_path (post ! j) s) = Some k"
      using j(4) g2 by (simp add: destination_of_def stdout_update_entry_place)
    ultimately show False by simp
  qed
  have "fs_map (snd (populate_with_symlinks (pre @ f # post) folder_path s)) k
          = fs_map (snd (link_files ?fa post s2 (n1 + 1))) k"
    using populate_final_fs_map[OF run(1), of "pre @ f # post"] loop by simp
  then show ?thesis using keep linked' by simp
qed


theorem populate_with_symlinks_replaces_entry_witness:
  "fs_map (snd (populate_with_symlinks ([] @ ''/new/a.jpg'' # [''/new/b.jpg'']) ''/dest''
          \<lparr>getcwd = ''/home/u'',
           fs_map = [[''new''] \<mapsto> Dir, [''new'', ''a.jpg''] \<mapsto> File,
                     [''new'', ''b.jpg''] \<mapsto> File, [''dest''] \<mapsto> Dir,
                     [''dest'', ''a.jpg''] \<mapsto> Link ''/old/a.jpg''],
           symlink_calls = [], stdout = []\<rparr>)) [''dest'', ''a.jpg'']
     = Some (Link ''/new/a.jpg'')"
proof -
  let ?s = "\<lparr>getcwd = ''/home/u'',
           fs_map = [[''new''] \<mapsto> Dir, [''new'', ''a.jpg''] \<mapsto> File,
                     [''new'', ''b.jpg''] \<mapsto> File, [''dest''] \<mapsto> Dir,
                     [''dest'', ''a.jpg''] \<mapsto> Link ''/old/a.jpg''],
           symlink_calls = [], stdout = []\<rparr>"
  let ?s1 = "snd (populate_with_symlinks [] ''/dest'' ?s)"
  have "fst (populate_with_symlinks [] ''/dest'' ?s) = Inr PyNone" by code_simp
  then have pre: "populate_with_symlinks [] ''/dest'' ?s = (Inr PyNone, ?s1)"
    by (simp add: prod_eq_iff)
  have ex: "os_path_exists ?s1 (abspath (getcwd ?s) ''/new/a.jpg'')" by code_simp
  have "lstat_direct ?s1 (destination_of ''/dest'' ''/new/a.jpg'' ?s)
          = Found [''dest'', ''a.jpg''] (Link ''/old/a.jpg'')"
    by code_simp
  then have entry: "lstat_direct ?s1 (destination_of ''/dest'' ''/new/a.jpg'' ?s)
          = Found [''dest'', ''a.jpg''] File
      \<or> (\<exists>t. lstat_direct ?s1 (destination_of ''/dest'' ''/new/a.jpg'' ?s)
          = Found [''dest'', ''a.jpg''] (Link t))"
    by blast
  have r1: "populate_with_symlinks [''/new/a.jpg''] ''/dest'' ?s
              = (fst (populate_with_symlinks [''/new/a.jpg''] ''/dest'' ?s),
                 snd (populate_with_symlinks [''/new/a.jpg''] ''/dest'' ?s))"
    by simp
  have kb: "entry_place (snd (populate_with_symlinks [''/new/a.jpg''] ''/dest'' ?s))
              (destination_of ''/dest'' ''/new/b.jpg'' ?s) = Some [''dest'', ''b.jpg'']"
    by code_simp
  have last: "\<forall>j < length [''/new/b.jpg'']. \<forall>v' s2.
                   populate_with_symlinks ([] @ ''/new/a.jpg'' # take j [''/new/b.jpg'']) ''/dest'' ?s = (Inr v', s2)
                 \<and> os_path_exists s2 (abspath (getcwd ?s) ([''/new/b.jpg''] ! j))
                 \<longrightarrow> entry_place s2 (destination_of ''/dest'' ([''/new/b.jpg''] ! j) ?s)
                       \<noteq> Some [''dest'', ''a.jpg'']"
  proof (intro allI impI)
    fix j v' s2
    assume j: "j < length [''/new/b.jpg'']"
      and a: "populate_with_symlinks ([] @ ''/new/a.jpg'' # take j [''/new/b.jpg'']) ''/dest'' ?s = (Inr v', s2)
                 \<and> os_path_exists s2 (abspath (getcwd ?s) ([''/new/b.jpg''] ! j))"
    have j0: "j = 0" using j by simp
    then have "s2 = snd (populate_with_symlinks [''/new/a.jpg''] ''/dest'' ?s)"
      using a by simp
    then have "entry_place s2 (destination_of ''/dest'' ''/new/b.jpg'' ?s) = Some [''dest'', ''b.jpg'']"
      using kb by simp
    then show "entry_place s2 (destination_of ''/dest'' ([''/new/b.jpg''] ! j) ?s)
                 \<noteq> Some [''dest'', ''a.jpg'']"
      using j0 by simp
  qed
  have ab: "abspath (getcwd ?s) ''/new/a.jpg'' = ''/new/a.jpg''" by code_simp
  show ?thesis
    using populate_with_symlinks_replaces_entry[OF pre ex entry last]
    unfolding ab .
qed

text \<open>
  Two existing sources share the base name \<^verbatim>\<open>a.jpg\<close>: after the call the entry points at
  the second one, not at \<^verbatim>\<open>/new/a.jpg\<close>.
\<close>

theorem populate_with_symlinks_last_writer_counterexample:
  "os_path_exists
      \<lparr>getcwd = ''/home/u'',
           fs_map = [[''new''] \<mapsto> Dir, [''new'', ''a.jpg''] \<mapsto> File, [''other''] \<mapsto> Dir,
                     [''other'', ''a.jpg''] \<mapsto> File, [''dest''] \<mapsto> Dir,
                     [''dest'', ''a.jpg''] \<mapsto> Link ''/old/a.jpg''],
           symlink_calls = [], stdout = []\<rparr> ''/new/a.jpg''
   \<and> fs_map (snd (populate_with_symlinks [''/new/a.jpg'', ''/other/a.jpg''] ''/dest''
          \<lparr>getcwd = ''/home/u'',
           fs_map = [[''new''] \<mapsto> Dir, [''new'', ''a.jpg''] \<mapsto> File, [''other''] \<mapsto> Dir,
                     [''other'', ''a.jpg''] \<mapsto> File, [''dest''] \<mapsto> Dir,
                     [''dest'', ''a.jpg''] \<mapsto> Link ''/old/a.jpg''],
           symlink_calls = [], stdout = []\<rparr>)) [''dest'', ''a.jpg'']
     = Some (Link ''/other/a.jpg'')"
  by code_simp

end
